theory Spec2Isabelle
  imports Complex_Main
begin

section \<open>The channel detector: data model\<close>

text \<open>
  A shallow embedding of \<^verbatim>\<open>src/channel_detector.py\<close> (class \<^verbatim>\<open>ChannelDetector\<close>).

  Numbers. A Python int or float is read as the rational it denotes (\<^typ>\<open>rat\<close>), a float
  literal such as \<^verbatim>\<open>0.3\<close> as the value of its double; NaN and the infinities are outside the
  model. Comparisons between numbers are exact, as they are in Python. The float
  operations that compute a line's slope and intercept, its price at a candle and a
  penetration percentage round their result; which number they return is not fixed here:
  the four operations are the parameter \<open>ops\<close> of the model, and every statement about it
  holds for all of them. Pivot timestamps are integer milliseconds: the difference of two
  of them is exact, and the validator's spacing quotient is kept as the quotient of the
  two integers.
  Pivot ids and the id counter are natural numbers (the counter starts at 0 and is only
  ever incremented).

  Timestamps. A candle's \<^verbatim>\<open>timestamp\<close> is documented as a datetime string but every use
  goes through the local helper \<^verbatim>\<open>to_ms\<close>, which also accepts numbers; it is a
  \<open>ts_val\<close>. A pivot's \<^verbatim>\<open>timestamp\<close> is documented as a Unix timestamp in milliseconds
  and the code subtracts and divides it directly; it is a number.

  Errors. The exceptions the code can raise on such input are values of \<open>py_error\<close>:
  \<^verbatim>\<open>pop(0)\<close> on an empty list and \<^verbatim>\<open>xs[-1]\<close> on an empty list raise IndexError, a
  division by a zero line price raises ZeroDivisionError. A function that can raise
  returns \<open>py_error + 'a\<close>, with \<open>Inl\<close> the exception.

  Left out: the \<^verbatim>\<open>print\<close> calls, the configuration values \<^verbatim>\<open>H\<close>, \<^verbatim>\<open>point\<close>, \<^verbatim>\<open>dH\<close>
  (stored, never read) and the attributes \<^verbatim>\<open>valid_combinations\<close> and
  \<^verbatim>\<open>created_combinations\<close> (set to empty by the constructor and by \<^verbatim>\<open>reset\<close>, never
  read or written otherwise).
\<close>

datatype py_error = ZeroDivisionError | IndexError

datatype ts_val = TsNum rat | TsOther string

datatype pivot_type = Peak | Trough

datatype line_type = Upper | Lower

record candle =
  c_timestamp :: ts_val
  c_open :: rat
  c_high :: rat
  c_low :: rat
  c_close :: rat
  c_volume :: rat

text \<open>The pivot as the upstream detector sends it (no id yet).\<close>

record raw_pivot =
  r_timestamp :: rat
  r_price :: rat
  r_type :: pivot_type

text \<open>The stored pivot, \<^verbatim>\<open>pivot_full\<close> in \<^verbatim>\<open>add_pivot\<close>.\<close>

record pivot =
  p_id :: nat
  p_timestamp :: rat
  p_price :: rat
  p_type :: pivot_type

text \<open>
  The line built by \<^verbatim>\<open>create_line\<close>. The field \<^verbatim>\<open>id\<close>, the string
  \<^verbatim>\<open>f"line_{id1}_{id2}"\<close>, is kept as the pair of the two numbers it prints.
\<close>

record line =
  l_id :: "nat \<times> nat"
  point1 :: pivot
  point2 :: pivot
  slope :: rat
  intercept :: rat
  l_type :: line_type
  point_ids :: "nat \<times> nat"

record zigzag_output =
  zz_candle :: "candle option"
  zz_pivot :: "raw_pivot option"

record config =
  max_pivots :: int
  max_age_ms :: "int option"
  max_slope :: "rat option"
  min_distance_candles :: int
  max_penetration_pct :: rat
  max_penetrating_candles :: int

record detector =
  peaks_list :: "pivot list"
  troughs_list :: "pivot list"
  candles_list :: "candle list"
  next_pivot_id :: nat
  upper_lines :: "line list"
  lower_lines :: "line list"
  created_line_pairs :: "(nat \<times> nat) set"

text \<open>
  The validator's reason strings are f-strings over the offending values; the model keeps
  which message it is and the values it prints.
\<close>

datatype reason =
    OK
  | SlopeTooLarge rat rat
  | PointsTooClose rat int
  | TooManyPenetrating nat int
  | PenetrationTooStrong rat rat

record penetration =
  pen_timestamp :: ts_val
  penetration_pct :: rat

text \<open>
  Float addition, subtraction, multiplication and division, each a function of the values
  of its two operands. \<open>exact_ops\<close> is the arithmetic that does not round; the concrete
  inputs below are evaluated with it.
\<close>

record float_ops =
  fl_add :: "rat \<Rightarrow> rat \<Rightarrow> rat"
  fl_sub :: "rat \<Rightarrow> rat \<Rightarrow> rat"
  fl_mul :: "rat \<Rightarrow> rat \<Rightarrow> rat"
  fl_div :: "rat \<Rightarrow> rat \<Rightarrow> rat"

definition exact_ops :: float_ops where
  "exact_ops = \<lparr>fl_add = (+), fl_sub = (-), fl_mul = (*), fl_div = (/)\<rparr>"

text \<open>\<^verbatim>\<open>self.candle_interval_ms = 15 * 60 * 1000\<close>, set by the constructor.\<close>

definition candle_interval_ms :: rat where
  "candle_interval_ms = 15 * 60 * 1000"

definition init_detector :: detector where
  "init_detector =
     \<lparr>peaks_list = [], troughs_list = [], candles_list = [], next_pivot_id = 0,
      upper_lines = [], lower_lines = [], created_line_pairs = {}\<rparr>"

section \<open>Timestamp normalisation\<close>

text \<open>Python's \<^verbatim>\<open>int(x)\<close> on a number truncates towards zero.\<close>

definition py_int :: "rat \<Rightarrow> int" where
  "py_int r = (if 0 \<le> r then \<lfloor>r\<rfloor> else \<lceil>r\<rceil>)"

text \<open>
  \<^verbatim>\<open>to_ms\<close>, defined twice in the source with the same body. The pandas call
  \<^verbatim>\<open>int(pd.to_datetime(ts).timestamp() * 1000)\<close> is the parameter \<open>pd\<close>: the milliseconds
  when the value parses, \<open>None\<close> when anything in that expression raises (the bare
  \<^verbatim>\<open>except\<close> catches every exception).
\<close>

definition to_ms :: "(string \<Rightarrow> int option) \<Rightarrow> ts_val \<Rightarrow> int" where
  "to_ms pd ts =
     (case ts of
        TsNum r \<Rightarrow> py_int r
      | TsOther v \<Rightarrow> (case pd v of Some ms \<Rightarrow> ms | None \<Rightarrow> 0))"

section \<open>Window store: eviction\<close>

text \<open>
  The count rule, \<^verbatim>\<open>while len(xs) > self.max_pivots: removed = xs.pop(0); ...\<close>.
  Popping from the empty list raises.
\<close>

fun count_evict :: "int \<Rightarrow> pivot list \<Rightarrow> nat list \<Rightarrow> py_error + (pivot list \<times> nat list)" where
  "count_evict m [] removed_ids = (if 0 > m then Inl IndexError else Inr ([], removed_ids))"
| "count_evict m (p # ps) removed_ids =
     (if int (length (p # ps)) > m then count_evict m ps (removed_ids @ [p_id p])
      else Inr (p # ps, removed_ids))"

text \<open>\<^verbatim>\<open>for old in olds: xs.remove(old)\<close>: each call removes the first equal element.\<close>

definition remove_all1 :: "'a list \<Rightarrow> 'a list \<Rightarrow> 'a list" where
  "remove_all1 xs olds = foldl (\<lambda>l x. remove1 x l) xs olds"

text \<open>The age rule; \<^verbatim>\<open>xs[-1]\<close> raises on the empty list.\<close>

definition age_evict :: "int option \<Rightarrow> pivot list \<Rightarrow> nat list \<Rightarrow> py_error + (pivot list \<times> nat list)" where
  "age_evict age ps removed_ids =
     (case age of
        None \<Rightarrow> Inr (ps, removed_ids)
      | Some a \<Rightarrow>
          (if ps = [] then Inl IndexError
           else
             let latest_timestamp = p_timestamp (last ps);
                 cutoff_timestamp = latest_timestamp - of_int a;
                 olds = filter (\<lambda>p. p_timestamp p < cutoff_timestamp) ps
             in Inr (remove_all1 ps olds, removed_ids @ map p_id olds)))"

text \<open>One of the two blocks of \<^verbatim>\<open>_cleanup_old_pivots\<close> (peaks, then troughs).\<close>

definition evict_list :: "config \<Rightarrow> pivot list \<Rightarrow> nat list \<Rightarrow> py_error + (pivot list \<times> nat list)" where
  "evict_list cfg ps removed_ids =
     (if length ps > 0 then
        (case count_evict (max_pivots cfg) ps removed_ids of
           Inl e \<Rightarrow> Inl e
         | Inr (ps', removed_ids') \<Rightarrow> age_evict (max_age_ms cfg) ps' removed_ids')
      else Inr (ps, removed_ids))"

text \<open>\<^verbatim>\<open>_cleanup_old_lines\<close>.\<close>

definition references :: "nat set \<Rightarrow> line \<Rightarrow> bool" where
  "references removed_ids_set l =
     (p_id (point1 l) \<in> removed_ids_set \<or> p_id (point2 l) \<in> removed_ids_set)"

definition discard_all :: "(nat \<times> nat) set \<Rightarrow> line list \<Rightarrow> (nat \<times> nat) set" where
  "discard_all created ls = foldl (\<lambda>S l. S - {point_ids l}) created ls"

definition cleanup_old_lines :: "nat list \<Rightarrow> detector \<Rightarrow> detector" where
  "cleanup_old_lines removed_pivot_ids s =
     (let removed_ids_set = set removed_pivot_ids;
          to_remove_upper = filter (references removed_ids_set) (upper_lines s);
          s1 = s\<lparr>upper_lines := remove_all1 (upper_lines s) to_remove_upper,
                created_line_pairs := discard_all (created_line_pairs s) to_remove_upper\<rparr>;
          to_remove_lower = filter (references removed_ids_set) (lower_lines s1)
      in s1\<lparr>lower_lines := remove_all1 (lower_lines s1) to_remove_lower,
             created_line_pairs := discard_all (created_line_pairs s1) to_remove_lower\<rparr>)"

text \<open>\<^verbatim>\<open>_cleanup_old_candles\<close>.\<close>

definition oldest_pivot_ts :: "detector \<Rightarrow> rat option" where
  "oldest_pivot_ts s =
     (if length (peaks_list s) > 0 \<and> length (troughs_list s) > 0 then
        Some (min (p_timestamp (hd (peaks_list s))) (p_timestamp (hd (troughs_list s))))
      else if length (peaks_list s) > 0 then Some (p_timestamp (hd (peaks_list s)))
      else if length (troughs_list s) > 0 then Some (p_timestamp (hd (troughs_list s)))
      else None)"

definition cleanup_old_candles :: "(string \<Rightarrow> int option) \<Rightarrow> detector \<Rightarrow> detector" where
  "cleanup_old_candles pd s =
     (if length (candles_list s) = 0 then s
      else
        (case oldest_pivot_ts s of
           None \<Rightarrow> s
         | Some ts \<Rightarrow>
             let oldest_pivot_ms = to_ms pd (TsNum ts)
             in s\<lparr>candles_list :=
                    filter (\<lambda>c. to_ms pd (c_timestamp c) \<ge> oldest_pivot_ms) (candles_list s)\<rparr>))"

text \<open>
  \<^verbatim>\<open>_cleanup_old_pivots\<close>. The second component of the result is the local list
  \<^verbatim>\<open>removed_ids\<close>, returned for the statements about evicted pivots.
\<close>

definition cleanup_old_pivots ::
  "(string \<Rightarrow> int option) \<Rightarrow> config \<Rightarrow> detector \<Rightarrow> py_error + (detector \<times> nat list)" where
  "cleanup_old_pivots pd cfg s =
     (case evict_list cfg (peaks_list s) [] of
        Inl e \<Rightarrow> Inl e
      | Inr (peaks', removed1) \<Rightarrow>
          (case evict_list cfg (troughs_list s) removed1 of
             Inl e \<Rightarrow> Inl e
           | Inr (troughs', removed_ids) \<Rightarrow>
               let s1 = s\<lparr>peaks_list := peaks', troughs_list := troughs'\<rparr>
               in if length removed_ids > 0
                  then Inr (cleanup_old_candles pd (cleanup_old_lines removed_ids s1), removed_ids)
                  else Inr (s1, removed_ids)))"

section \<open>Line factory\<close>

text \<open>
  \<^verbatim>\<open>create_line\<close>: \<^verbatim>\<open>slope = (y2 - y1) / (x2 - x1)\<close> and
  \<^verbatim>\<open>intercept = y1 - slope * x1\<close>, after the test \<^verbatim>\<open>x2 == x1\<close>. The divisor is a
  difference of timestamps.
\<close>

definition create_line :: "float_ops \<Rightarrow> pivot \<Rightarrow> pivot \<Rightarrow> line option" where
  "create_line ops pt1 pt2 =
     (let x1 = p_timestamp pt1; y1 = p_price pt1; x2 = p_timestamp pt2; y2 = p_price pt2
      in if x2 = x1 then None
         else
           let sl = fl_div ops (fl_sub ops y2 y1) (x2 - x1);
               ic = fl_sub ops y1 (fl_mul ops sl x1)
           in Some \<lparr>l_id = (p_id pt1, p_id pt2), point1 = pt1, point2 = pt2,
                     slope = sl, intercept = ic,
                     l_type = (if p_type pt1 = Peak then Upper else Lower),
                     point_ids = (p_id pt1, p_id pt2)\<rparr>)"

section \<open>Line validator\<close>

text \<open>
  The first loop of \<^verbatim>\<open>_check_line_penetration\<close> over \<^verbatim>\<open>candles_between\<close>:
  \<^verbatim>\<open>line_price = line['slope'] * candle_ts + line['intercept']\<close> and
  \<^verbatim>\<open>penetration_pct = ((candle['high'] - line_price) / line_price) * 100\<close>, for a lower
  line \<^verbatim>\<open>((line_price - candle['low']) / line_price) * 100\<close>. The division by
  \<^verbatim>\<open>line_price\<close> raises when the price is zero.
\<close>

fun penetrating_loop ::
  "float_ops \<Rightarrow> (string \<Rightarrow> int option) \<Rightarrow> line \<Rightarrow> candle list \<Rightarrow> penetration list \<Rightarrow> py_error + penetration list" where
  "penetrating_loop ops pd l [] acc = Inr acc"
| "penetrating_loop ops pd l (c # cs) acc =
     (let candle_ts = to_ms pd (c_timestamp c);
          line_price = fl_add ops (fl_mul ops (slope l) (of_int candle_ts)) (intercept l)
      in if l_type l = Upper then
           (if c_high c > line_price then
              (if line_price = 0 then Inl ZeroDivisionError
               else penetrating_loop ops pd l cs
                      (acc @ [\<lparr>pen_timestamp = c_timestamp c,
                                penetration_pct =
                                  fl_mul ops (fl_div ops (fl_sub ops (c_high c) line_price) line_price)
                                    100\<rparr>]))
            else penetrating_loop ops pd l cs acc)
         else
           (if c_low c < line_price then
              (if line_price = 0 then Inl ZeroDivisionError
               else penetrating_loop ops pd l cs
                      (acc @ [\<lparr>pen_timestamp = c_timestamp c,
                                penetration_pct =
                                  fl_mul ops (fl_div ops (fl_sub ops line_price (c_low c)) line_price)
                                    100\<rparr>]))
            else penetrating_loop ops pd l cs acc))"

definition candles_between :: "(string \<Rightarrow> int option) \<Rightarrow> line \<Rightarrow> candle list \<Rightarrow> candle list" where
  "candles_between pd l cs =
     (let ts1 = p_timestamp (point1 l); ts2 = p_timestamp (point2 l);
          start_ts = min ts1 ts2; end_ts = max ts1 ts2
      in filter (\<lambda>c. start_ts < of_int (to_ms pd (c_timestamp c)) \<and>
                       of_int (to_ms pd (c_timestamp c)) < end_ts) cs)"

definition check_line_penetration ::
  "float_ops \<Rightarrow> (string \<Rightarrow> int option) \<Rightarrow> config \<Rightarrow> candle list \<Rightarrow> line \<Rightarrow> py_error + (bool \<times> reason)" where
  "check_line_penetration ops pd cfg cs l =
     (if length cs = 0 then Inr (True, OK)
      else
        let between = candles_between pd l cs
        in if length between = 0 then Inr (True, OK)
           else
             (case penetrating_loop ops pd l between [] of
                Inl e \<Rightarrow> Inl e
              | Inr penetrating_candles \<Rightarrow>
                  if int (length penetrating_candles) > max_penetrating_candles cfg
                  then Inr (False, TooManyPenetrating (length penetrating_candles)
                                     (max_penetrating_candles cfg))
                  else
                    (case find (\<lambda>pen. penetration_pct pen > max_penetration_pct cfg)
                            penetrating_candles of
                       Some pen \<Rightarrow>
                         Inr (False, PenetrationTooStrong (penetration_pct pen)
                                       (max_penetration_pct cfg))
                     | None \<Rightarrow> Inr (True, OK))))"

text \<open>
  The three stages of \<^verbatim>\<open>validate_single_line\<close>, in the order of the source: slope, then
  spacing, then penetration. \<open>the (max_slope cfg)\<close> is read only where the slope test has
  fired, so where a bound is configured.
\<close>

definition slope_too_large :: "config \<Rightarrow> line \<Rightarrow> bool" where
  "slope_too_large cfg l =
     (case max_slope cfg of None \<Rightarrow> False | Some ms \<Rightarrow> \<bar>slope l\<bar> > ms)"

definition validate_single_line ::
  "float_ops \<Rightarrow> (string \<Rightarrow> int option) \<Rightarrow> config \<Rightarrow> candle list \<Rightarrow> line \<Rightarrow> py_error + (bool \<times> reason)" where
  "validate_single_line ops pd cfg cs l =
     (if slope_too_large cfg l then Inr (False, SlopeTooLarge (slope l) (the (max_slope cfg)))
      else
        let timestamp1 = p_timestamp (point1 l);
            timestamp2 = p_timestamp (point2 l);
            time_distance_ms = \<bar>timestamp2 - timestamp1\<bar>;
            num_candles = time_distance_ms / candle_interval_ms
        in if num_candles < of_int (min_distance_candles cfg)
           then Inr (False, PointsTooClose num_candles (min_distance_candles cfg))
           else
             (case check_line_penetration ops pd cfg cs l of
                Inl e \<Rightarrow> Inl e
              | Inr (is_valid, r) \<Rightarrow> if \<not> is_valid then Inr (False, r) else Inr (True, OK)))"

section \<open>Incremental engine\<close>

text \<open>
  One of the two filter loops of \<^verbatim>\<open>_update_valid_lines\<close>: the lines that pass, in order,
  and the pair set with the \<^verbatim>\<open>point_ids\<close> of every rejected line discarded.
\<close>

fun filter_valid ::
  "float_ops \<Rightarrow> (string \<Rightarrow> int option) \<Rightarrow> config \<Rightarrow> candle list \<Rightarrow> line list \<Rightarrow> line list \<Rightarrow> (nat \<times> nat) set
     \<Rightarrow> py_error + (line list \<times> (nat \<times> nat) set)" where
  "filter_valid ops pd cfg cs [] valid created = Inr (valid, created)"
| "filter_valid ops pd cfg cs (l # ls) valid created =
     (case validate_single_line ops pd cfg cs l of
        Inl e \<Rightarrow> Inl e
      | Inr (is_valid, r) \<Rightarrow>
          if is_valid then filter_valid ops pd cfg cs ls (valid @ [l]) created
          else filter_valid ops pd cfg cs ls valid (created - {point_ids l}))"

definition update_valid_lines ::
  "float_ops \<Rightarrow> (string \<Rightarrow> int option) \<Rightarrow> config \<Rightarrow> detector \<Rightarrow> py_error + detector" where
  "update_valid_lines ops pd cfg s =
     (case filter_valid ops pd cfg (candles_list s) (upper_lines s) [] (created_line_pairs s) of
        Inl e \<Rightarrow> Inl e
      | Inr (valid_upper, created1) \<Rightarrow>
          (case filter_valid ops pd cfg (candles_list s) (lower_lines s) [] created1 of
             Inl e \<Rightarrow> Inl e
           | Inr (valid_lower, created2) \<Rightarrow>
               Inr (s\<lparr>upper_lines := valid_upper, lower_lines := valid_lower,
                       created_line_pairs := created2\<rparr>)))"

text \<open>\<^verbatim>\<open>tuple(sorted([a, b]))\<close>.\<close>

definition sorted_pair :: "nat \<Rightarrow> nat \<Rightarrow> nat \<times> nat" where
  "sorted_pair a b = (min a b, max a b)"

text \<open>
  The pairing loop of \<^verbatim>\<open>_generate_new_lines\<close>: the list \<^verbatim>\<open>new_lines\<close> and the updated
  \<^verbatim>\<open>created_line_pairs\<close>.
\<close>

fun pair_loop ::
  "float_ops \<Rightarrow> pivot \<Rightarrow> pivot list \<Rightarrow> line list \<Rightarrow> (nat \<times> nat) set \<Rightarrow> line list \<times> (nat \<times> nat) set" where
  "pair_loop ops new_pivot [] new_lines created = (new_lines, created)"
| "pair_loop ops new_pivot (old_pivot # rest) new_lines created =
     (if p_id old_pivot = p_id new_pivot then pair_loop ops new_pivot rest new_lines created
      else
        let pair = sorted_pair (p_id old_pivot) (p_id new_pivot)
        in if pair \<in> created then pair_loop ops new_pivot rest new_lines created
           else
             (case create_line ops old_pivot new_pivot of
                None \<Rightarrow> pair_loop ops new_pivot rest new_lines created
              | Some l \<Rightarrow> pair_loop ops new_pivot rest (new_lines @ [l]) (insert pair created)))"

text \<open>The search for the new pivot: the peaks first, then the troughs.\<close>

definition find_new_pivot :: "detector \<Rightarrow> nat \<Rightarrow> (pivot \<times> pivot list) option" where
  "find_new_pivot s new_pivot_id =
     (case find (\<lambda>p. p_id p = new_pivot_id) (peaks_list s) of
        Some p \<Rightarrow> Some (p, peaks_list s)
      | None \<Rightarrow>
          (case find (\<lambda>t. p_id t = new_pivot_id) (troughs_list s) of
             Some t \<Rightarrow> Some (t, troughs_list s)
           | None \<Rightarrow> None))"

text \<open>
  \<^verbatim>\<open>_generate_new_lines\<close>. The second component of the result is the local list
  \<^verbatim>\<open>new_lines\<close>.
\<close>

definition generate_new_lines ::
  "float_ops \<Rightarrow> (string \<Rightarrow> int option) \<Rightarrow> config \<Rightarrow> detector \<Rightarrow> nat \<Rightarrow> py_error + (detector \<times> line list)" where
  "generate_new_lines ops pd cfg s new_pivot_id =
     (case find_new_pivot s new_pivot_id of
        None \<Rightarrow> Inr (s, [])
      | Some (new_pivot, pivot_list) \<Rightarrow>
          (case pair_loop ops new_pivot pivot_list [] (created_line_pairs s) of
             (new_lines, created) \<Rightarrow>
               let s1 = s\<lparr>created_line_pairs := created,
                          upper_lines := upper_lines s @ filter (\<lambda>l. l_type l = Upper) new_lines,
                          lower_lines := lower_lines s @ filter (\<lambda>l. l_type l \<noteq> Upper) new_lines\<rparr>
               in if length new_lines > 0
                  then (case update_valid_lines ops pd cfg s1 of
                          Inl e \<Rightarrow> Inl e
                        | Inr s2 \<Rightarrow> Inr (s2, new_lines))
                  else Inr (s1, new_lines)))"

text \<open>
  What one \<^verbatim>\<open>add_pivot\<close> call did besides changing the detector: the returned id, and the
  two local lists \<^verbatim>\<open>removed_ids\<close> and \<^verbatim>\<open>new_lines\<close> of the calls it made.
\<close>

record call_trace =
  returned_id :: "nat option"
  removed_ids :: "nat list"
  generated :: "line list"

definition ingest_candle :: "detector \<Rightarrow> candle option \<Rightarrow> detector" where
  "ingest_candle s c =
     (case c of None \<Rightarrow> s | Some cd \<Rightarrow> s\<lparr>candles_list := candles_list s @ [cd]\<rparr>)"

definition ingest_pivot :: "detector \<Rightarrow> raw_pivot \<Rightarrow> detector" where
  "ingest_pivot s pv =
     (let pivot_id = next_pivot_id s;
          pivot_full = \<lparr>p_id = pivot_id, p_timestamp = r_timestamp pv, p_price = r_price pv,
                        p_type = r_type pv\<rparr>;
          s1 = s\<lparr>next_pivot_id := next_pivot_id s + 1\<rparr>
      in if r_type pv = Peak then s1\<lparr>peaks_list := peaks_list s1 @ [pivot_full]\<rparr>
         else s1\<lparr>troughs_list := troughs_list s1 @ [pivot_full]\<rparr>)"

definition add_pivot_traced ::
  "float_ops \<Rightarrow> (string \<Rightarrow> int option) \<Rightarrow> config \<Rightarrow> detector \<Rightarrow> zigzag_output \<Rightarrow> py_error + (detector \<times> call_trace)" where
  "add_pivot_traced ops pd cfg s zz =
     (let s1 = ingest_candle s (zz_candle zz)
      in case zz_pivot zz of
           None \<Rightarrow> Inr (s1, \<lparr>returned_id = None, removed_ids = [], generated = []\<rparr>)
         | Some pv \<Rightarrow>
             let pivot_id = next_pivot_id s1;
                 s2 = ingest_pivot s1 pv
             in (case cleanup_old_pivots pd cfg s2 of
                   Inl e \<Rightarrow> Inl e
                 | Inr (s3, removed) \<Rightarrow>
                     (case generate_new_lines ops pd cfg s3 pivot_id of
                        Inl e \<Rightarrow> Inl e
                      | Inr (s4, new_lines) \<Rightarrow>
                          Inr (s4, \<lparr>returned_id = Some pivot_id, removed_ids = removed,
                                    generated = new_lines\<rparr>))))"

text \<open>\<^verbatim>\<open>add_pivot\<close>: the detector after the call and the returned id.\<close>

definition add_pivot ::
  "float_ops \<Rightarrow> (string \<Rightarrow> int option) \<Rightarrow> config \<Rightarrow> detector \<Rightarrow> zigzag_output \<Rightarrow> py_error + (detector \<times> nat option)" where
  "add_pivot ops pd cfg s zz =
     (case add_pivot_traced ops pd cfg s zz of
        Inl e \<Rightarrow> Inl e
      | Inr (s', tr) \<Rightarrow> Inr (s', returned_id tr))"

text \<open>\<^verbatim>\<open>reset\<close>.\<close>

definition reset :: "detector \<Rightarrow> detector" where
  "reset s =
     s\<lparr>peaks_list := [], troughs_list := [], candles_list := [], upper_lines := [],
       lower_lines := [], created_line_pairs := {}, next_pivot_id := 0\<rparr>"

text \<open>
  A sequence of \<^verbatim>\<open>add_pivot\<close> calls on one detector. An exception ends the run: the
  half-updated detector a caller would find after catching it is not modelled. The result
  is the detector after the last call and the trace of every call, in order.
\<close>

fun run ::
  "float_ops \<Rightarrow> (string \<Rightarrow> int option) \<Rightarrow> config \<Rightarrow> detector \<Rightarrow> zigzag_output list
     \<Rightarrow> py_error + (detector \<times> call_trace list)" where
  "run ops pd cfg s [] = Inr (s, [])"
| "run ops pd cfg s (zz # zzs) =
     (case add_pivot_traced ops pd cfg s zz of
        Inl e \<Rightarrow> Inl e
      | Inr (s1, tr) \<Rightarrow>
          (case run ops pd cfg s1 zzs of
             Inl e \<Rightarrow> Inl e
           | Inr (s2, trs) \<Rightarrow> Inr (s2, tr # trs)))"

section \<open>The penetration stage as the specification words it\<close>

text \<open>
  Section 4.3 of the specification, stage 3, written as predicates. The timestamp of a
  candle is its normalised timestamp \<open>to_ms pd (c_timestamp c)\<close>, the only form in which
  the validator ever reads it. \<open>spec_between\<close>: the candle lies strictly between the two
  endpoint timestamps. \<open>spec_penetrates\<close> and \<open>spec_magnitude\<close>: the candle penetrates the
  line, and by how many percent of the line's price. \<open>spec_penetration_accepts\<close>: no
  candle in between, or neither too many penetrating candles nor one that penetrates too
  far. Prices and percentages are computed as the code computes them, with \<open>ops\<close>.
\<close>

definition spec_line_price :: "float_ops \<Rightarrow> (string \<Rightarrow> int option) \<Rightarrow> line \<Rightarrow> candle \<Rightarrow> rat" where
  "spec_line_price ops pd l c =
     fl_add ops (fl_mul ops (slope l) (of_int (to_ms pd (c_timestamp c)))) (intercept l)"

definition spec_between :: "(string \<Rightarrow> int option) \<Rightarrow> line \<Rightarrow> candle \<Rightarrow> bool" where
  "spec_between pd l c =
     (min (p_timestamp (point1 l)) (p_timestamp (point2 l)) < of_int (to_ms pd (c_timestamp c)) \<and>
      of_int (to_ms pd (c_timestamp c)) < max (p_timestamp (point1 l)) (p_timestamp (point2 l)))"

definition spec_penetrates :: "float_ops \<Rightarrow> (string \<Rightarrow> int option) \<Rightarrow> line \<Rightarrow> candle \<Rightarrow> bool" where
  "spec_penetrates ops pd l c =
     (case l_type l of
        Upper \<Rightarrow> c_high c > spec_line_price ops pd l c
      | Lower \<Rightarrow> c_low c < spec_line_price ops pd l c)"

definition spec_magnitude :: "float_ops \<Rightarrow> (string \<Rightarrow> int option) \<Rightarrow> line \<Rightarrow> candle \<Rightarrow> rat" where
  "spec_magnitude ops pd l c =
     (case l_type l of
        Upper \<Rightarrow>
          fl_mul ops (fl_div ops (fl_sub ops (c_high c) (spec_line_price ops pd l c))
                        (spec_line_price ops pd l c)) 100
      | Lower \<Rightarrow>
          fl_mul ops (fl_div ops (fl_sub ops (spec_line_price ops pd l c) (c_low c))
                        (spec_line_price ops pd l c)) 100)"

definition spec_penetration_accepts ::
  "float_ops \<Rightarrow> (string \<Rightarrow> int option) \<Rightarrow> config \<Rightarrow> candle list \<Rightarrow> line \<Rightarrow> bool" where
  "spec_penetration_accepts ops pd cfg cs l =
     (let between = filter (spec_between pd l) cs;
          pens = filter (spec_penetrates ops pd l) between
      in between = [] \<or>
         \<not> (int (length pens) > max_penetrating_candles cfg \<or>
            list_ex (\<lambda>c. spec_magnitude ops pd l c > max_penetration_pct cfg) pens))"

text \<open>The entry the code appends to \<^verbatim>\<open>penetrating_candles\<close> for a penetrating candle.\<close>

definition spec_pen :: "float_ops \<Rightarrow> (string \<Rightarrow> int option) \<Rightarrow> line \<Rightarrow> candle \<Rightarrow> penetration" where
  "spec_pen ops pd l c = \<lparr>pen_timestamp = c_timestamp c, penetration_pct = spec_magnitude ops pd l c\<rparr>"

section \<open>Invariants of the engine\<close>

text \<open>
  What one eviction block does to a list: some prefix is popped by the count rule, some
  of the rest is filtered out by the age rule, and \<open>rem\<close> lists the ids of what went, in
  that order.
\<close>

definition evicted_from :: "pivot list \<Rightarrow> pivot list \<Rightarrow> nat list \<Rightarrow> bool" where
  "evicted_from ps ps' rem \<longleftrightarrow>
     (\<exists>k Q. ps' = filter Q (drop k ps) \<and>
            rem = map p_id (take k ps) @ map p_id (filter (\<lambda>p. \<not> Q p) (drop k ps)))"

text \<open>The test of the two loops of \<^verbatim>\<open>_update_valid_lines\<close>: validation returned and said valid.\<close>

definition is_valid_line :: "float_ops \<Rightarrow> (string \<Rightarrow> int option) \<Rightarrow> config \<Rightarrow> candle list \<Rightarrow> line \<Rightarrow> bool" where
  "is_valid_line ops pd cfg cs l =
     (case validate_single_line ops pd cfg cs l of Inl e \<Rightarrow> False | Inr (is_valid, r) \<Rightarrow> is_valid)"

text \<open>
  A resident line over a pivot list: both endpoints are resident in the list, the first
  has the smaller id, and \<^verbatim>\<open>point_ids\<close> is the pair of the two ids in that order.
\<close>

definition line_ok :: "pivot list \<Rightarrow> line \<Rightarrow> bool" where
  "line_ok ps l \<longleftrightarrow>
     point1 l \<in> set ps \<and> point2 l \<in> set ps \<and> p_id (point1 l) < p_id (point2 l) \<and>
     point_ids l = (p_id (point1 l), p_id (point2 l))"

text \<open>
  The invariant on pivots and lines: resident ids are below the counter and pairwise
  distinct, peaks are peaks and troughs are troughs, upper lines join resident peaks and
  lower lines join resident troughs.
\<close>

definition pivots_inv :: "detector \<Rightarrow> bool" where
  "pivots_inv s \<longleftrightarrow>
     (\<forall>p\<in>set (peaks_list s). p_id p < next_pivot_id s \<and> p_type p = Peak) \<and>
     (\<forall>p\<in>set (troughs_list s). p_id p < next_pivot_id s \<and> p_type p = Trough) \<and>
     distinct (map p_id (peaks_list s @ troughs_list s)) \<and>
     (\<forall>l\<in>set (upper_lines s). line_ok (peaks_list s) l) \<and>
     (\<forall>l\<in>set (lower_lines s). line_ok (troughs_list s) l)"

text \<open>
  The invariant on the dedup set: resident lines have pairwise distinct \<^verbatim>\<open>point_ids\<close>, and
  \<^verbatim>\<open>created_line_pairs\<close> is exactly the set of them.
\<close>

definition pairs_inv :: "detector \<Rightarrow> bool" where
  "pairs_inv s \<longleftrightarrow>
     distinct (map point_ids (upper_lines s @ lower_lines s)) \<and>
     created_line_pairs s = point_ids ` set (upper_lines s @ lower_lines s)"

definition detector_inv :: "detector \<Rightarrow> bool" where
  "detector_inv s \<longleftrightarrow> pivots_inv s \<and> pairs_inv s"

text \<open>
  Keeping the lines that satisfy \<open>P\<close> and discarding the \<^verbatim>\<open>point_ids\<close> of the others: the
  common shape of \<^verbatim>\<open>_cleanup_old_lines\<close> and \<^verbatim>\<open>_update_valid_lines\<close>.
\<close>

definition keep_lines :: "(line \<Rightarrow> bool) \<Rightarrow> detector \<Rightarrow> detector" where
  "keep_lines P s =
     s\<lparr>upper_lines := filter P (upper_lines s), lower_lines := filter P (lower_lines s),
       created_line_pairs :=
         created_line_pairs s - point_ids ` {l \<in> set (upper_lines s @ lower_lines s). \<not> P l}\<rparr>"

text \<open>The detector just before the re-validation of \<^verbatim>\<open>_generate_new_lines\<close>.\<close>

definition with_new_lines :: "detector \<Rightarrow> line list \<Rightarrow> (nat \<times> nat) set \<Rightarrow> detector" where
  "with_new_lines s nl c' =
     s\<lparr>created_line_pairs := c',
       upper_lines := upper_lines s @ filter (\<lambda>l. l_type l = Upper) nl,
       lower_lines := lower_lines s @ filter (\<lambda>l. l_type l \<noteq> Upper) nl\<rparr>"

text \<open>Both pivot lists are within the count cap.\<close>

definition bounded_pivots :: "config \<Rightarrow> detector \<Rightarrow> bool" where
  "bounded_pivots cfg s \<longleftrightarrow>
     int (length (peaks_list s)) \<le> max_pivots cfg \<and>
     int (length (troughs_list s)) \<le> max_pivots cfg"

text \<open>The ids of \<open>E\<close> were all assigned and none of them is resident any more.\<close>

definition gone :: "nat set \<Rightarrow> detector \<Rightarrow> bool" where
  "gone E s \<longleftrightarrow>
     (\<forall>e\<in>E. e < next_pivot_id s \<and> e \<notin> p_id ` set (peaks_list s @ troughs_list s))"

text \<open>The unordered pair of the two endpoint ids of a line.\<close>

definition endpoint_ids :: "line \<Rightarrow> nat set" where
  "endpoint_ids l = {p_id (point1 l), p_id (point2 l)}"

section \<open>Records in time order\<close>

text \<open>
  Section 1 of the specification: candles arrive in non-decreasing time order. The clock
  of a run is the latest timestamp delivered so far, of a candle (normalised) or of a
  pivot, \<open>None\<close> before the first. A sequence of records is in time order when no candle
  is earlier than the clock at its arrival, that is, than a candle or a pivot of an
  earlier record.
\<close>

definition candle_ms :: "(string \<Rightarrow> int option) \<Rightarrow> candle \<Rightarrow> rat" where
  "candle_ms pd c = of_int (to_ms pd (c_timestamp c))"

definition advance_clock :: "rat option \<Rightarrow> rat \<Rightarrow> rat option" where
  "advance_clock now t = (case now of None \<Rightarrow> Some t | Some u \<Rightarrow> Some (max u t))"

definition clock_after :: "(string \<Rightarrow> int option) \<Rightarrow> rat option \<Rightarrow> zigzag_output \<Rightarrow> rat option" where
  "clock_after pd now zz =
     (let now1 = (case zz_candle zz of None \<Rightarrow> now | Some c \<Rightarrow> advance_clock now (candle_ms pd c))
      in case zz_pivot zz of None \<Rightarrow> now1 | Some pv \<Rightarrow> advance_clock now1 (r_timestamp pv))"

definition not_before :: "rat option \<Rightarrow> rat \<Rightarrow> bool" where
  "not_before now t = (case now of None \<Rightarrow> True | Some u \<Rightarrow> u \<le> t)"

fun in_time_order :: "(string \<Rightarrow> int option) \<Rightarrow> rat option \<Rightarrow> zigzag_output list \<Rightarrow> bool" where
  "in_time_order pd now [] = True"
| "in_time_order pd now (zz # zzs) =
     ((case zz_candle zz of None \<Rightarrow> True | Some c \<Rightarrow> not_before now (candle_ms pd c)) \<and>
      in_time_order pd (clock_after pd now zz) zzs)"



section \<open>Candle timestamps up to normalisation\<close>

text \<open>
  A candle, a detector and a record with every candle timestamp replaced by the number it
  normalises to, and the result of a call with its detector so normalised.
\<close>

definition norm_candle :: "(string \<Rightarrow> int option) \<Rightarrow> candle \<Rightarrow> candle" where
  "norm_candle pd c = c\<lparr>c_timestamp := TsNum (of_int (to_ms pd (c_timestamp c)))\<rparr>"

definition norm_detector :: "(string \<Rightarrow> int option) \<Rightarrow> detector \<Rightarrow> detector" where
  "norm_detector pd s = s\<lparr>candles_list := map (norm_candle pd) (candles_list s)\<rparr>"

definition norm_zz :: "(string \<Rightarrow> int option) \<Rightarrow> zigzag_output \<Rightarrow> zigzag_output" where
  "norm_zz pd zz = zz\<lparr>zz_candle := map_option (norm_candle pd) (zz_candle zz)\<rparr>"

definition norm_outcome ::
  "(string \<Rightarrow> int option) \<Rightarrow> py_error + (detector \<times> 'a) \<Rightarrow> py_error + (detector \<times> 'a)" where
  "norm_outcome pd r = map_sum id (map_prod (norm_detector pd) id) r"

text \<open>What the penetration stage reads off the list of penetrating candles.\<close>

definition pen_verdict :: "config \<Rightarrow> penetration list \<Rightarrow> py_error + (bool \<times> reason)" where
  "pen_verdict cfg pens =
     (if int (length pens) > max_penetrating_candles cfg
      then Inr (False, TooManyPenetrating (length pens) (max_penetrating_candles cfg))
      else
        (case find (\<lambda>pen. penetration_pct pen > max_penetration_pct cfg) pens of
           Some pen \<Rightarrow> Inr (False, PenetrationTooStrong (penetration_pct pen) (max_penetration_pct cfg))
         | None \<Rightarrow> Inr (True, OK)))"

section \<open>Concrete inputs\<close>

text \<open>
  The configuration and the record format of the source's own self-test
  (\<^verbatim>\<open>if __name__ == "__main__"\<close>): 15-minute candles with all prices zero, one pivot per
  record.
\<close>

definition demo_cfg :: config where
  "demo_cfg =
     \<lparr>max_pivots = 5, max_age_ms = None, max_slope = Some (5 / 10000),
      min_distance_candles = 2, max_penetration_pct = 3 / 10, max_penetrating_candles = 2\<rparr>"

definition demo_pd :: "string \<Rightarrow> int option" where
  "demo_pd v = (if v = ''1970-01-01 00:15:00'' then Some 900000 else None)"

definition demo_candle :: "rat \<Rightarrow> candle" where
  "demo_candle t =
     \<lparr>c_timestamp = TsNum t, c_open = 0, c_high = 0, c_low = 0, c_close = 0, c_volume = 0\<rparr>"

definition demo_zz :: "rat \<Rightarrow> rat \<Rightarrow> pivot_type \<Rightarrow> zigzag_output" where
  "demo_zz t p ty =
     \<lparr>zz_candle = Some (demo_candle t),
      zz_pivot = Some \<lparr>r_timestamp = t, r_price = p, r_type = ty\<rparr>\<rparr>"

definition demo_pivot :: "nat \<Rightarrow> rat \<Rightarrow> rat \<Rightarrow> pivot_type \<Rightarrow> pivot" where
  "demo_pivot i t p ty = \<lparr>p_id = i, p_timestamp = t, p_price = p, p_type = ty\<rparr>"

text \<open>Two troughs three candles apart, and the detector after the two calls.\<close>

definition demo_two_troughs :: "zigzag_output list" where
  "demo_two_troughs = [demo_zz 0 95000 Trough, demo_zz 2700000 94500 Trough]"

definition demo_lower_line :: line where
  "demo_lower_line =
     \<lparr>l_id = (0, 1), point1 = demo_pivot 0 0 95000 Trough,
      point2 = demo_pivot 1 2700000 94500 Trough,
      slope = - (1 / 5400), intercept = 95000, l_type = Lower, point_ids = (0, 1)\<rparr>"

definition demo_after_two_troughs :: detector where
  "demo_after_two_troughs =
     \<lparr>peaks_list = [],
      troughs_list = [demo_pivot 0 0 95000 Trough, demo_pivot 1 2700000 94500 Trough],
      candles_list = [demo_candle 0, demo_candle 2700000],
      next_pivot_id = 2, upper_lines = [], lower_lines = [demo_lower_line],
      created_line_pairs = {(0, 1)}\<rparr>"

definition demo_trace_two_troughs :: "call_trace list" where
  "demo_trace_two_troughs =
     [\<lparr>returned_id = Some 0, removed_ids = [], generated = []\<rparr>,
      \<lparr>returned_id = Some 1, removed_ids = [], generated = [demo_lower_line]\<rparr>]"

text \<open>
  A flat upper line at price 64000 over four candles, and a candle in the middle of it
  whose high is 65000. The line's price at the candle and the penetration percentage,
  1.5625, are binary fractions.
\<close>

definition demo_flat_upper :: line where
  "demo_flat_upper =
     \<lparr>l_id = (0, 1), point1 = demo_pivot 0 0 64000 Peak,
      point2 = demo_pivot 1 3600000 64000 Peak,
      slope = 0, intercept = 64000, l_type = Upper, point_ids = (0, 1)\<rparr>"

definition demo_high_candle :: candle where
  "demo_high_candle =
     \<lparr>c_timestamp = TsNum 1800000, c_open = 64000, c_high = 65000, c_low = 63900,
      c_close = 64100, c_volume = 1\<rparr>"

text \<open>Two troughs half a candle apart: a gentle pair and a steep pair.\<close>

definition demo_close_a :: pivot where
  "demo_close_a = demo_pivot 0 1800000 94800 Trough"

definition demo_close_b :: pivot where
  "demo_close_b = demo_pivot 1 2250000 94700 Trough"

definition demo_close_steep :: pivot where
  "demo_close_steep = demo_pivot 1 2250000 98800 Trough"

text \<open>A record with a candle and no pivot, and the three records that break a flat upper line.\<close>

definition demo_candle_only :: zigzag_output where
  "demo_candle_only = \<lparr>zz_candle = Some (demo_candle 0), zz_pivot = None\<rparr>"

definition demo_flat_records :: "zigzag_output list" where
  "demo_flat_records =
     [demo_zz 0 64000 Peak, demo_zz 3600000 64000 Peak,
      \<lparr>zz_candle = Some demo_high_candle, zz_pivot = None\<rparr>]"

text \<open>
  The same configuration with room for two pivots per list, a third trough that evicts
  the first one, and the detector and the traces of that run.
\<close>

definition demo_small_cfg :: config where
  "demo_small_cfg = demo_cfg\<lparr>max_pivots := 2\<rparr>"

definition demo_three_troughs :: "zigzag_output list" where
  "demo_three_troughs = demo_two_troughs @ [demo_zz 5400000 94000 Trough]"

definition demo_second_line :: line where
  "demo_second_line =
     \<lparr>l_id = (1, 2), point1 = demo_pivot 1 2700000 94500 Trough,
      point2 = demo_pivot 2 5400000 94000 Trough,
      slope = - (1 / 5400), intercept = 95000, l_type = Lower, point_ids = (1, 2)\<rparr>"

definition demo_after_three_troughs :: detector where
  "demo_after_three_troughs =
     \<lparr>peaks_list = [],
      troughs_list = [demo_pivot 1 2700000 94500 Trough, demo_pivot 2 5400000 94000 Trough],
      candles_list = [demo_candle 2700000, demo_candle 5400000],
      next_pivot_id = 3, upper_lines = [], lower_lines = [demo_second_line],
      created_line_pairs = {(1, 2)}\<rparr>"

definition demo_third_call :: call_trace where
  "demo_third_call = \<lparr>returned_id = Some 2, removed_ids = [0], generated = [demo_second_line]\<rparr>"

definition demo_trace_three_troughs :: "call_trace list" where
  "demo_trace_three_troughs = demo_trace_two_troughs @ [demo_third_call]"


definition demo_malformed_candle :: candle where
  "demo_malformed_candle = (demo_candle 0)\<lparr>c_timestamp := TsOther ''not a date''\<rparr>"





text \<open>An upper line whose price is zero everywhere.\<close>

definition demo_zero_upper :: line where
  "demo_zero_upper = demo_flat_upper\<lparr>intercept := 0\<rparr>"

section \<open>Evaluation\<close>

lemmas engine_defs =
  add_pivot_traced_def ingest_candle_def ingest_pivot_def cleanup_old_pivots_def
  evict_list_def age_evict_def remove_all1_def cleanup_old_lines_def references_def
  discard_all_def cleanup_old_candles_def oldest_pivot_ts_def generate_new_lines_def
  find_new_pivot_def sorted_pair_def create_line_def update_valid_lines_def
  validate_single_line_def slope_too_large_def candle_interval_ms_def
  check_line_penetration_def candles_between_def to_ms_def py_int_def exact_ops_def

lemmas demo_defs =
  demo_cfg_def demo_pd_def demo_candle_def demo_zz_def demo_pivot_def init_detector_def

section \<open>Reset\<close>

lemma reset_is_init: "reset s = init_detector"
  by (simp add: reset_def init_detector_def)

text \<open>
  C8. Run a sequence of records on a fresh detector, call \<^verbatim>\<open>reset\<close>, run the same
  sequence again: the second run returns, and it returns the same detector (so the same
  resident upper and lower lines) and the same trace (so the same returned pivot ids);
  after \<^verbatim>\<open>reset\<close> the id counter is zero.
\<close>

theorem reset_rerun_identical:
  "run ops pd cfg init_detector zzs = Inr (s1, trs) \<Longrightarrow>
     run ops pd cfg (reset s1) zzs = Inr (s1, trs) \<and> next_pivot_id (reset s1) = 0"
  by (simp add: reset_is_init) (simp add: init_detector_def)

lemma demo_run_two_troughs:
  "run exact_ops demo_pd demo_cfg init_detector demo_two_troughs =
     Inr (demo_after_two_troughs, demo_trace_two_troughs)"
  by (simp add: demo_two_troughs_def demo_after_two_troughs_def demo_trace_two_troughs_def
      demo_lower_line_def demo_defs engine_defs Let_def)

theorem reset_rerun_identical_witness:
  "run exact_ops demo_pd demo_cfg init_detector demo_two_troughs =
     Inr (demo_after_two_troughs, demo_trace_two_troughs) \<and>
   run exact_ops demo_pd demo_cfg (reset demo_after_two_troughs) demo_two_troughs =
     Inr (demo_after_two_troughs, demo_trace_two_troughs) \<and>
   next_pivot_id (reset demo_after_two_troughs) = 0"
  using reset_rerun_identical [OF demo_run_two_troughs] demo_run_two_troughs by simp

section \<open>Minimum spacing\<close>

text \<open>
  C3, as the code has it. Two pivots whose timestamps differ by 450000 ms, with
  \<^verbatim>\<open>min_distance_candles = 2\<close>: a line is built from them and validation rejects it,
  whatever its slope and whatever the candles. The slope check runs first: the reason is
  the spacing one (0.5 candles < 2) when no slope bound is configured or the slope is
  within it, and the slope one when the slope exceeds the bound.
\<close>

theorem too_close_rejected:
  assumes "\<bar>p_timestamp pt2 - p_timestamp pt1\<bar> = 450000"
    and "min_distance_candles cfg = 2"
  shows "\<exists>l. create_line ops pt1 pt2 = Some l \<and>
           validate_single_line ops pd cfg cs l =
             Inr (False, if slope_too_large cfg l then SlopeTooLarge (slope l) (the (max_slope cfg))
                         else PointsTooClose (1 / 2) 2)"
proof -
  from assms(1) have ne: "p_timestamp pt2 \<noteq> p_timestamp pt1" by auto
  then obtain l where l: "create_line ops pt1 pt2 = Some l"
    by (simp add: create_line_def Let_def)
  then have pts: "point1 l = pt1" "point2 l = pt2"
    using ne by (auto simp: create_line_def Let_def)
  have "validate_single_line ops pd cfg cs l =
             Inr (False, if slope_too_large cfg l then SlopeTooLarge (slope l) (the (max_slope cfg))
                         else PointsTooClose (1 / 2) 2)"
    using assms by (simp add: validate_single_line_def pts candle_interval_ms_def Let_def)
  with l show ?thesis by blast
qed

theorem too_close_rejected_witness:
  "\<bar>p_timestamp demo_close_b - p_timestamp demo_close_a\<bar> = 450000 \<and>
   min_distance_candles demo_cfg = 2 \<and>
   (\<exists>l. create_line exact_ops demo_close_a demo_close_b = Some l \<and>
      validate_single_line exact_ops demo_pd demo_cfg [] l = Inr (False, PointsTooClose (1 / 2) 2))"
proof -
  have h1: "\<bar>p_timestamp demo_close_b - p_timestamp demo_close_a\<bar> = 450000"
    by (simp add: demo_close_a_def demo_close_b_def demo_pivot_def)
  have h2: "min_distance_candles demo_cfg = 2"
    by (simp add: demo_cfg_def)
  have "\<And>l. create_line exact_ops demo_close_a demo_close_b = Some l \<Longrightarrow> \<not> slope_too_large demo_cfg l"
    by (auto simp: create_line_def slope_too_large_def demo_close_a_def demo_close_b_def
        demo_pivot_def demo_cfg_def exact_ops_def Let_def)
  with too_close_rejected [OF h1 h2, of exact_ops demo_pd "[]"] h1 h2 show ?thesis
    by auto
qed

text \<open>
  The claim as written fails for a pair whose slope exceeds the bound: the steep pair is
  rejected with the slope reason, not the spacing one.
\<close>

theorem too_close_reason_counterexample:
  "map_option (validate_single_line exact_ops demo_pd demo_cfg []) (create_line exact_ops demo_close_a demo_close_steep)
     = Some (Inr (False, SlopeTooLarge (2 / 225) (1 / 2000)))"
  by (simp add: create_line_def validate_single_line_def slope_too_large_def demo_close_a_def
      demo_close_steep_def demo_pivot_def demo_cfg_def exact_ops_def Let_def)

section \<open>Penetration stage\<close>

lemma candles_between_spec: "candles_between pd l cs = filter (spec_between pd l) cs"
  by (simp add: candles_between_def spec_between_def [abs_def] Let_def)

lemma penetrating_loop_step:
  "penetrating_loop ops pd l (c # cs) acc =
     (if spec_penetrates ops pd l c then
        (if spec_line_price ops pd l c = 0 then Inl ZeroDivisionError
         else penetrating_loop ops pd l cs (acc @ [spec_pen ops pd l c]))
      else penetrating_loop ops pd l cs acc)"
  by (cases "l_type l")
    (simp_all add: Let_def spec_penetrates_def spec_pen_def spec_magnitude_def spec_line_price_def)

lemma penetrating_loop_spec:
  "\<forall>c\<in>set cs. spec_penetrates ops pd l c \<longrightarrow> spec_line_price ops pd l c \<noteq> 0 \<Longrightarrow>
   penetrating_loop ops pd l cs acc = Inr (acc @ map (spec_pen ops pd l) (filter (spec_penetrates ops pd l) cs))"
  by (induction cs arbitrary: acc) (simp_all add: penetrating_loop_step del: penetrating_loop.simps(2))

lemma penetrating_loop_zero:
  "\<exists>c\<in>set cs. spec_penetrates ops pd l c \<and> spec_line_price ops pd l c = 0 \<Longrightarrow>
   penetrating_loop ops pd l cs acc = Inl ZeroDivisionError"
  by (induction cs arbitrary: acc) (auto simp: penetrating_loop_step simp del: penetrating_loop.simps(2))

lemma find_pct_None:
  "(find (\<lambda>pen. penetration_pct pen > m) (map (spec_pen ops pd l) cs) = None) =
   (\<not> list_ex (\<lambda>c. spec_magnitude ops pd l c > m) cs)"
  by (induction cs) (simp_all add: spec_pen_def)

text \<open>
  Where no penetrating candle in between sits at a line price of exactly zero, the stage
  returns what the specification's predicate says.
\<close>

lemma penetration_stage_returns:
  assumes nz: "\<forall>c\<in>set (filter (spec_between pd l) cs).
                 spec_penetrates ops pd l c \<longrightarrow> spec_line_price ops pd l c \<noteq> 0"
  shows "\<exists>r. check_line_penetration ops pd cfg cs l = Inr (spec_penetration_accepts ops pd cfg cs l, r) \<and>
              (spec_penetration_accepts ops pd cfg cs l \<longleftrightarrow> r = OK)"
proof -
  let ?between = "filter (spec_between pd l) cs"
  let ?pens = "filter (spec_penetrates ops pd l) ?between"
  have loop: "penetrating_loop ops pd l ?between [] = Inr (map (spec_pen ops pd l) ?pens)"
    using penetrating_loop_spec [OF nz, of "[]"] by simp
  show ?thesis
  proof (cases "?between = []")
    case True
    then show ?thesis
      by (simp add: check_line_penetration_def candles_between_spec spec_penetration_accepts_def
          Let_def)
  next
    case False
    then have cs: "cs \<noteq> []" by auto
    show ?thesis
    proof (cases "int (length ?pens) > max_penetrating_candles cfg")
      case True
      then show ?thesis
        using False cs
        by (simp add: check_line_penetration_def candles_between_spec loop
            spec_penetration_accepts_def Let_def)
    next
      case few: False
      show ?thesis
      proof (cases "find (\<lambda>pen. penetration_pct pen > max_penetration_pct cfg)
                      (map (spec_pen ops pd l) ?pens)")
        case None
        then have "\<not> list_ex (\<lambda>c. spec_magnitude ops pd l c > max_penetration_pct cfg) ?pens"
          by (simp add: find_pct_None)
        then show ?thesis
          using False cs few None
          by (simp add: check_line_penetration_def candles_between_spec loop
              spec_penetration_accepts_def Let_def)
      next
        case (Some pen)
        then have "list_ex (\<lambda>c. spec_magnitude ops pd l c > max_penetration_pct cfg) ?pens"
          using find_pct_None [of "max_penetration_pct cfg" ops pd l ?pens] by simp
        then show ?thesis
          using False cs few Some
          by (simp add: check_line_penetration_def candles_between_spec loop
              spec_penetration_accepts_def Let_def)
      qed
    qed
  qed
qed

text \<open>Otherwise the stage raises.\<close>

lemma penetration_stage_zero_division:
  assumes "\<exists>c\<in>set (filter (spec_between pd l) cs).
             spec_penetrates ops pd l c \<and> spec_line_price ops pd l c = 0"
  shows "check_line_penetration ops pd cfg cs l = Inl ZeroDivisionError"
proof -
  from assms have ne: "filter (spec_between pd l) cs \<noteq> []"
    by (auto simp: filter_empty_conv)
  then have "cs \<noteq> []" by auto
  with ne show ?thesis
    using penetrating_loop_zero [OF assms, of "[]"]
    by (simp add: check_line_penetration_def candles_between_spec Let_def)
qed

text \<open>
  C2. Whatever the float arithmetic \<open>ops\<close>. The candles the penetration stage considers are
  those whose normalised timestamp lies strictly between the two endpoint timestamps. A
  candle penetrates an upper line when its high is above the line's price at the candle,
  \<^verbatim>\<open>slope * ts + intercept\<close>, and a lower line when its low is below it, by
  \<^verbatim>\<open>((high - price) / price) * 100\<close> and \<^verbatim>\<open>((price - low) / price) * 100\<close> percent, all
  computed with \<open>ops\<close>. With no candle in between the stage accepts; otherwise it rejects
  iff more than \<^verbatim>\<open>max_penetrating_candles\<close> of them penetrate or some magnitude exceeds
  \<^verbatim>\<open>max_penetration_pct\<close>; the reason is \<open>OK\<close> exactly on acceptance. This is what the
  stage returns whenever it returns, and it returns unless a penetrating candle in between
  sits where the line's price is exactly zero: there the division of the magnitude raises
  ZeroDivisionError.
\<close>

theorem penetration_stage_spec:
  "if list_ex (\<lambda>c. spec_penetrates ops pd l c \<and> spec_line_price ops pd l c = 0)
        (filter (spec_between pd l) cs)
   then check_line_penetration ops pd cfg cs l = Inl ZeroDivisionError
   else (\<exists>r. check_line_penetration ops pd cfg cs l =
               Inr (spec_penetration_accepts ops pd cfg cs l, r) \<and>
             (spec_penetration_accepts ops pd cfg cs l \<longleftrightarrow> r = OK))"
proof (cases "list_ex (\<lambda>c. spec_penetrates ops pd l c \<and> spec_line_price ops pd l c = 0)
                (filter (spec_between pd l) cs)")
  case True
  then have "\<exists>c\<in>set (filter (spec_between pd l) cs).
               spec_penetrates ops pd l c \<and> spec_line_price ops pd l c = 0"
    by (simp add: list_ex_iff)
  from penetration_stage_zero_division [OF this] True show ?thesis by simp
next
  case False
  then have "\<forall>c\<in>set (filter (spec_between pd l) cs).
               spec_penetrates ops pd l c \<longrightarrow> spec_line_price ops pd l c \<noteq> 0"
    by (simp add: list_ex_iff)
  from penetration_stage_returns [OF this] False show ?thesis by simp
qed

theorem penetration_stage_spec_witness:
  "filter (spec_between demo_pd demo_flat_upper) [demo_high_candle] = [demo_high_candle] \<and>
   spec_penetrates exact_ops demo_pd demo_flat_upper demo_high_candle \<and>
   spec_line_price exact_ops demo_pd demo_flat_upper demo_high_candle = 64000 \<and>
   spec_magnitude exact_ops demo_pd demo_flat_upper demo_high_candle = 25 / 16 \<and>
   \<not> spec_penetration_accepts exact_ops demo_pd demo_cfg [demo_high_candle] demo_flat_upper \<and>
   (\<exists>r. check_line_penetration exact_ops demo_pd demo_cfg [demo_high_candle] demo_flat_upper =
          Inr (False, r) \<and> r \<noteq> OK) \<and>
   filter (spec_between demo_pd demo_zero_upper) [demo_high_candle] = [demo_high_candle] \<and>
   spec_penetrates exact_ops demo_pd demo_zero_upper demo_high_candle \<and>
   spec_line_price exact_ops demo_pd demo_zero_upper demo_high_candle = 0 \<and>
   check_line_penetration exact_ops demo_pd demo_cfg [demo_high_candle] demo_zero_upper =
     Inl ZeroDivisionError"
proof -
  have sb: "spec_between demo_pd demo_flat_upper demo_high_candle"
    by (simp add: spec_between_def demo_flat_upper_def demo_high_candle_def demo_pivot_def
        to_ms_def py_int_def)
  have p: "spec_line_price exact_ops demo_pd demo_flat_upper demo_high_candle = 64000"
    by (simp add: spec_line_price_def demo_flat_upper_def exact_ops_def)
  have pen: "spec_penetrates exact_ops demo_pd demo_flat_upper demo_high_candle"
    by (simp add: spec_penetrates_def spec_line_price_def demo_flat_upper_def
        demo_high_candle_def exact_ops_def)
  have m: "spec_magnitude exact_ops demo_pd demo_flat_upper demo_high_candle = 25 / 16"
    by (simp add: spec_magnitude_def spec_line_price_def demo_flat_upper_def
        demo_high_candle_def exact_ops_def)
  have a: "\<not> spec_penetration_accepts exact_ops demo_pd demo_cfg [demo_high_candle] demo_flat_upper"
    by (simp add: spec_penetration_accepts_def sb pen m Let_def demo_cfg_def)
  have sb0: "spec_between demo_pd demo_zero_upper demo_high_candle"
    by (simp add: spec_between_def demo_zero_upper_def demo_flat_upper_def demo_high_candle_def
        demo_pivot_def to_ms_def py_int_def)
  have p0: "spec_line_price exact_ops demo_pd demo_zero_upper demo_high_candle = 0"
    by (simp add: spec_line_price_def demo_zero_upper_def demo_flat_upper_def exact_ops_def)
  have pen0: "spec_penetrates exact_ops demo_pd demo_zero_upper demo_high_candle"
    by (simp add: spec_penetrates_def spec_line_price_def demo_zero_upper_def
        demo_flat_upper_def demo_high_candle_def exact_ops_def)
  from penetration_stage_spec [of exact_ops demo_pd demo_flat_upper "[demo_high_candle]" demo_cfg]
    penetration_stage_spec [of exact_ops demo_pd demo_zero_upper "[demo_high_candle]" demo_cfg]
    sb p pen m a sb0 p0 pen0
  show ?thesis by auto
qed

section \<open>Eviction, pairing and re-validation preserve the invariants\<close>

lemma remove1_other_Cons:
  "\<forall>y\<in>set ys. y \<noteq> x \<Longrightarrow> foldl (\<lambda>l y. remove1 y l) (x # xs) ys = x # foldl (\<lambda>l y. remove1 y l) xs ys"
  by (induction ys arbitrary: xs) auto

lemma remove_all1_filter: "remove_all1 xs (filter P xs) = filter (\<lambda>x. \<not> P x) xs"
proof (induction xs)
  case Nil
  then show ?case by (simp add: remove_all1_def)
next
  case (Cons x xs)
  show ?case
  proof (cases "P x")
    case True
    then show ?thesis using Cons by (simp add: remove_all1_def)
  next
    case False
    then have "\<forall>y\<in>set (filter P xs). y \<noteq> x" by auto
    then show ?thesis
      using False Cons by (simp add: remove_all1_def remove1_other_Cons)
  qed
qed

lemma discard_all_eq: "discard_all S ls = S - point_ids ` set ls"
  unfolding discard_all_def by (induction ls arbitrary: S) auto

lemma count_evict_shape:
  "count_evict m ps r = Inr (ps', r') \<Longrightarrow>
     \<exists>k. ps' = drop k ps \<and> r' = r @ map p_id (take k ps) \<and> int (length ps') \<le> m"
proof (induction ps arbitrary: r)
  case Nil
  then show ?case by (auto split: if_splits)
next
  case (Cons p ps)
  show ?case
  proof (cases "int (length (p # ps)) > m")
    case True
    with Cons.prems have "count_evict m ps (r @ [p_id p]) = Inr (ps', r')" by simp
    from Cons.IH [OF this] obtain k where
      "ps' = drop k ps" "r' = (r @ [p_id p]) @ map p_id (take k ps)" "int (length ps') \<le> m"
      by blast
    then have "ps' = drop (Suc k) (p # ps) \<and> r' = r @ map p_id (take (Suc k) (p # ps)) \<and>
        int (length ps') \<le> m" by simp
    then show ?thesis by blast
  next
    case False
    with Cons.prems have "ps' = p # ps" "r' = r" by auto
    then have "ps' = drop 0 (p # ps) \<and> r' = r @ map p_id (take 0 (p # ps)) \<and>
        int (length ps') \<le> m" using False by simp
    then show ?thesis by blast
  qed
qed

lemma age_evict_shape:
  "age_evict age ps r = Inr (ps', r') \<Longrightarrow>
     \<exists>Q. ps' = filter Q ps \<and> r' = r @ map p_id (filter (\<lambda>p. \<not> Q p) ps)"
proof (cases age)
  case None
  assume "age_evict age ps r = Inr (ps', r')"
  with None have "ps' = filter (\<lambda>_. True) ps \<and> r' = r @ map p_id (filter (\<lambda>p. \<not> True) ps)"
    by (simp add: age_evict_def)
  then show ?thesis by blast
next
  case (Some a)
  assume "age_evict age ps r = Inr (ps', r')"
  with Some have
    "ps' = filter (\<lambda>p. \<not> p_timestamp p < p_timestamp (last ps) - of_int a) ps \<and>
     r' = r @ map p_id (filter (\<lambda>p. \<not> \<not> p_timestamp p < p_timestamp (last ps) - of_int a) ps)"
    by (auto simp: age_evict_def Let_def remove_all1_filter split: if_splits)
  then show ?thesis by blast
qed

lemma evict_list_shape:
  assumes "evict_list cfg ps r = Inr (ps', r')"
  shows "\<exists>rem. r' = r @ rem \<and> evicted_from ps ps' rem"
proof (cases "ps = []")
  case True
  with assms have "ps' = [] \<and> r' = r" by (simp add: evict_list_def)
  with True show ?thesis by (simp add: evicted_from_def)
next
  case False
  with assms obtain ps1 r1 where
    c: "count_evict (max_pivots cfg) ps r = Inr (ps1, r1)" and
    a: "age_evict (max_age_ms cfg) ps1 r1 = Inr (ps', r')"
    by (auto simp: evict_list_def split: sum.splits)
  from count_evict_shape [OF c] obtain k where
    k: "ps1 = drop k ps" "r1 = r @ map p_id (take k ps)" by blast
  from age_evict_shape [OF a] obtain Q where
    Q: "ps' = filter Q ps1" "r' = r1 @ map p_id (filter (\<lambda>p. \<not> Q p) ps1)" by blast
  from k Q have "r' = r @ (map p_id (take k ps) @ map p_id (filter (\<lambda>p. \<not> Q p) (drop k ps)))"
    by simp
  moreover from k Q have "evicted_from ps ps' (map p_id (take k ps) @ map p_id (filter (\<lambda>p. \<not> Q p) (drop k ps)))"
    unfolding evicted_from_def by blast
  ultimately show ?thesis by blast
qed

lemma evict_list_length:
  assumes "evict_list cfg ps r = Inr (ps', r')" and "ps \<noteq> []"
  shows "int (length ps') \<le> max_pivots cfg"
proof -
  from assms obtain ps1 r1 where
    c: "count_evict (max_pivots cfg) ps r = Inr (ps1, r1)" and
    a: "age_evict (max_age_ms cfg) ps1 r1 = Inr (ps', r')"
    by (auto simp: evict_list_def split: sum.splits)
  from count_evict_shape [OF c] have "int (length ps1) \<le> max_pivots cfg" by blast
  moreover from age_evict_shape [OF a] have "length ps' \<le> length ps1" by auto
  ultimately show ?thesis by linarith
qed

lemma evict_list_empty: "evict_list cfg [] r = Inr ([], r)"
  by (simp add: evict_list_def)

lemma evicted_from_subset: "evicted_from ps ps' rem \<Longrightarrow> set ps' \<subseteq> set ps"
  by (auto simp: evicted_from_def dest: in_set_dropD)

lemma evicted_from_length: "evicted_from ps ps' rem \<Longrightarrow> length ps' \<le> length ps"
  by (auto simp: evicted_from_def intro: order_trans [OF length_filter_le])

lemma evicted_from_distinct:
  "evicted_from ps ps' rem \<Longrightarrow> distinct (map p_id ps) \<Longrightarrow> distinct (map p_id ps')"
  by (auto simp: evicted_from_def distinct_map_filter drop_map [symmetric])

lemma evicted_from_kept_or_removed:
  assumes "evicted_from ps ps' rem" and "p \<in> set ps"
  shows "p \<in> set ps' \<or> p_id p \<in> set rem"
proof -
  from assms(1) obtain k Q where
    s: "ps' = filter Q (drop k ps)"
       "rem = map p_id (take k ps) @ map p_id (filter (\<lambda>p. \<not> Q p) (drop k ps))"
    unfolding evicted_from_def by blast
  from assms(2) have "p \<in> set (take k ps) \<or> p \<in> set (drop k ps)"
    by (metis append_take_drop_id set_append Un_iff)
  with s show ?thesis by auto
qed

lemma evicted_from_removed_ids:
  assumes "evicted_from ps ps' rem" and "e \<in> set rem"
  shows "e \<in> p_id ` set ps"
proof -
  from assms(1) obtain k Q where
    s: "rem = map p_id (take k ps) @ map p_id (filter (\<lambda>p. \<not> Q p) (drop k ps))"
    unfolding evicted_from_def by blast
  with assms(2) show ?thesis
    by (auto dest: in_set_takeD in_set_dropD)
qed

lemma evicted_from_removed_gone:
  assumes "evicted_from ps ps' rem" and "distinct (map p_id ps)" and "e \<in> set rem"
  shows "e \<notin> p_id ` set ps'"
proof -
  from assms(1) obtain k Q where
    s: "ps' = filter Q (drop k ps)"
       "rem = map p_id (take k ps) @ map p_id (filter (\<lambda>p. \<not> Q p) (drop k ps))"
    unfolding evicted_from_def by blast
  have d: "distinct (map p_id (take k ps) @ map p_id (drop k ps))"
    using assms(2) by (metis append_take_drop_id map_append)
  then have d1: "p_id ` set (take k ps) \<inter> p_id ` set (drop k ps) = {}"
    and d2: "distinct (map p_id (drop k ps))" by auto
  show ?thesis
  proof
    assume "e \<in> p_id ` set ps'"
    then obtain q where q: "q \<in> set (drop k ps)" "Q q" "p_id q = e" using s by auto
    from assms(3) s consider "e \<in> p_id ` set (take k ps)"
      | p where "p \<in> set (drop k ps)" "\<not> Q p" "p_id p = e" by auto
    then show False
    proof cases
      case 1
      with q d1 show False by auto
    next
      case 2
      with q d2 have "p = q" by (metis distinct_map inj_onD)
      with 2 q show False by simp
    qed
  qed
qed

lemma diff_image_split:
  "S - f ` {l \<in> set xs. Q l} - f ` {l \<in> set ys. Q l} = S - f ` {l \<in> set (xs @ ys). Q l}"
  by auto

lemma cleanup_old_lines_keep:
  "cleanup_old_lines rem s = keep_lines (\<lambda>l. \<not> references (set rem) l) s"
  by (simp add: cleanup_old_lines_def keep_lines_def Let_def remove_all1_filter discard_all_eq
      diff_image_split del: set_append)

lemma keep_lines_all: "keep_lines (\<lambda>l. True) s = s"
  by (simp add: keep_lines_def)

lemma references_empty: "\<not> references {} l"
  by (simp add: references_def)

lemma filter_valid_shape:
  "filter_valid ops pd cfg cs ls acc created = Inr (v, c) \<Longrightarrow>
     v = acc @ filter (is_valid_line ops pd cfg cs) ls \<and>
     c = created - point_ids ` {l \<in> set ls. \<not> is_valid_line ops pd cfg cs l}"
proof (induction ls arbitrary: acc created)
  case Nil
  then show ?case by simp
next
  case (Cons l ls)
  from Cons.prems obtain b r where vr: "validate_single_line ops pd cfg cs l = Inr (b, r)"
    by (auto split: sum.splits)
  show ?case
  proof (cases b)
    case True
    with vr Cons.prems have "filter_valid ops pd cfg cs ls (acc @ [l]) created = Inr (v, c)" by simp
    from Cons.IH [OF this] True vr show ?thesis
      by (auto simp: is_valid_line_def)
  next
    case False
    with vr Cons.prems have "filter_valid ops pd cfg cs ls acc (created - {point_ids l}) = Inr (v, c)"
      by simp
    from Cons.IH [OF this] False vr show ?thesis
      by (auto simp: is_valid_line_def)
  qed
qed

lemma update_valid_lines_keep:
  assumes "update_valid_lines ops pd cfg s = Inr s'"
  shows "s' = keep_lines (is_valid_line ops pd cfg (candles_list s)) s"
proof -
  from assms obtain vu c1 vl c2 where
    u: "filter_valid ops pd cfg (candles_list s) (upper_lines s) [] (created_line_pairs s) = Inr (vu, c1)" and
    l: "filter_valid ops pd cfg (candles_list s) (lower_lines s) [] c1 = Inr (vl, c2)" and
    s': "s' = s\<lparr>upper_lines := vu, lower_lines := vl, created_line_pairs := c2\<rparr>"
    by (auto simp: update_valid_lines_def split: sum.splits)
  from filter_valid_shape [OF u] filter_valid_shape [OF l] s' show ?thesis
    by (simp add: keep_lines_def diff_image_split del: set_append)
qed

lemma inj_on_point_ids: "distinct (map point_ids ls) \<Longrightarrow> inj_on point_ids (set ls)"
  by (simp add: distinct_map)

lemma keep_lines_pairs_inv:
  assumes "pairs_inv s"
  shows "pairs_inv (keep_lines P s)"
proof -
  let ?ls = "upper_lines s @ lower_lines s"
  from assms have d: "distinct (map point_ids ?ls)"
    and c: "created_line_pairs s = point_ids ` set ?ls"
    by (simp_all add: pairs_inv_def)
  from d have inj: "inj_on point_ids (set ?ls)" by (rule inj_on_point_ids)
  have "point_ids ` (set ?ls - {l \<in> set ?ls. \<not> P l}) =
      point_ids ` set ?ls - point_ids ` {l \<in> set ?ls. \<not> P l}"
    by (rule inj_on_image_set_diff [OF inj]) auto
  moreover have "set ?ls - {l \<in> set ?ls. \<not> P l} = {l \<in> set ?ls. P l}"
    by auto
  ultimately have "point_ids ` set ?ls - point_ids ` {l \<in> set ?ls. \<not> P l} =
      point_ids ` {l \<in> set ?ls. P l}"
    by simp
  then have c': "created_line_pairs (keep_lines P s) =
      point_ids ` set (upper_lines (keep_lines P s) @ lower_lines (keep_lines P s))"
    using c by (auto simp: keep_lines_def)
  have d': "distinct (map point_ids (upper_lines (keep_lines P s) @ lower_lines (keep_lines P s)))"
    using d by (auto simp: keep_lines_def distinct_map_filter)
  from c' d' show ?thesis
    unfolding pairs_inv_def by simp
qed

lemma keep_lines_pivots_inv: "pivots_inv s \<Longrightarrow> pivots_inv (keep_lines P s)"
  by (simp add: pivots_inv_def keep_lines_def)

lemma keep_lines_inv: "detector_inv s \<Longrightarrow> detector_inv (keep_lines P s)"
  by (simp add: detector_inv_def keep_lines_pairs_inv keep_lines_pivots_inv)

lemma init_inv: "detector_inv init_detector"
  by (simp add: detector_inv_def pivots_inv_def pairs_inv_def init_detector_def)

lemma ingest_candle_inv: "detector_inv s \<Longrightarrow> detector_inv (ingest_candle s c)"
  by (cases c) (simp_all add: detector_inv_def pivots_inv_def pairs_inv_def ingest_candle_def)

lemma line_ok_mono: "line_ok ps l \<Longrightarrow> set ps \<subseteq> set qs \<Longrightarrow> line_ok qs l"
  by (auto simp: line_ok_def)

lemma ingest_pivot_inv:
  assumes "detector_inv s"
  shows "detector_inv (ingest_pivot s pv)"
proof (cases "r_type pv")
  case Peak
  with assms show ?thesis
    unfolding detector_inv_def pivots_inv_def pairs_inv_def ingest_pivot_def Let_def
    by (auto simp: less_Suc_eq line_ok_def)
next
  case Trough
  with assms show ?thesis
    unfolding detector_inv_def pivots_inv_def pairs_inv_def ingest_pivot_def Let_def
    by (auto simp: less_Suc_eq line_ok_def)
qed

lemma cleanup_old_candles_other:
  "cleanup_old_candles pd s = s\<lparr>candles_list := candles_list (cleanup_old_candles pd s)\<rparr>"
  by (simp add: cleanup_old_candles_def Let_def split: option.splits)

lemma cleanup_old_candles_filter:
  "\<exists>Q. candles_list (cleanup_old_candles pd s) = filter Q (candles_list s)"
proof (cases "length (candles_list s) = 0 \<or> oldest_pivot_ts s = None")
  case True
  then have "candles_list (cleanup_old_candles pd s) = filter (\<lambda>_. True) (candles_list s)"
    by (auto simp: cleanup_old_candles_def)
  then show ?thesis by blast
next
  case False
  then obtain ts where "oldest_pivot_ts s = Some ts" by auto
  with False have "candles_list (cleanup_old_candles pd s) =
      filter (\<lambda>c. to_ms pd (TsNum ts) \<le> to_ms pd (c_timestamp c)) (candles_list s)"
    by (simp add: cleanup_old_candles_def Let_def)
  then show ?thesis by blast
qed

lemma cleanup_old_pivots_shape:
  assumes "cleanup_old_pivots pd cfg s = Inr (s', rem)"
  shows "\<exists>rem1 rem2. rem = rem1 @ rem2 \<and>
           evicted_from (peaks_list s) (peaks_list s') rem1 \<and>
           evicted_from (troughs_list s) (troughs_list s') rem2 \<and>
           s' = (keep_lines (\<lambda>l. \<not> references (set rem) l)
                   (s\<lparr>peaks_list := peaks_list s', troughs_list := troughs_list s'\<rparr>))
                \<lparr>candles_list := candles_list s'\<rparr>"
proof -
  obtain pk rem1 where e1: "evict_list cfg (peaks_list s) [] = Inr (pk, rem1)"
  proof (cases "evict_list cfg (peaks_list s) []")
    case (Inl e)
    with assms show ?thesis by (simp add: cleanup_old_pivots_def)
  next
    case (Inr x)
    with that show ?thesis by (cases x) simp
  qed
  obtain tr rem' where e2': "evict_list cfg (troughs_list s) rem1 = Inr (tr, rem')"
  proof (cases "evict_list cfg (troughs_list s) rem1")
    case (Inl e)
    with assms e1 show ?thesis by (simp add: cleanup_old_pivots_def)
  next
    case (Inr x)
    with that show ?thesis by (cases x) simp
  qed
  from assms e1 e2' have "rem' = rem"
    by (simp add: cleanup_old_pivots_def Let_def split: if_splits)
  with e2' have e2: "evict_list cfg (troughs_list s) rem1 = Inr (tr, rem)" by simp
  from evict_list_shape [OF e1] have ev1: "evicted_from (peaks_list s) pk rem1" by simp
  from evict_list_shape [OF e2] obtain rem2 where
    rem: "rem = rem1 @ rem2" and ev2: "evicted_from (troughs_list s) tr rem2" by blast
  define s1 where "s1 = s\<lparr>peaks_list := pk, troughs_list := tr\<rparr>"
  define k where "k = keep_lines (\<lambda>l. \<not> references (set rem) l) s1"
  have s': "s' = k\<lparr>candles_list := candles_list s'\<rparr>"
  proof (cases "rem = []")
    case True
    with assms e1 e2 have "s' = s1" by (simp add: cleanup_old_pivots_def s1_def)
    moreover from True have "k = s1"
      by (simp add: k_def references_empty keep_lines_def)
    ultimately show ?thesis by simp
  next
    case False
    with assms e1 e2 have "s' = cleanup_old_candles pd (cleanup_old_lines rem s1)"
      by (simp add: cleanup_old_pivots_def s1_def)
    then have "s' = cleanup_old_candles pd k"
      by (simp add: cleanup_old_lines_keep k_def)
    then show ?thesis
      using cleanup_old_candles_other [of pd k] by simp
  qed
  have "peaks_list k = pk" "troughs_list k = tr"
    by (simp_all add: k_def s1_def keep_lines_def)
  with arg_cong [OF s', of peaks_list] arg_cong [OF s', of troughs_list]
  have pt: "peaks_list s' = pk" "troughs_list s' = tr"
    by simp_all
  with rem ev1 ev2 s' show ?thesis
    unfolding k_def s1_def by blast
qed

lemma cleanup_old_pivots_candles:
  assumes "cleanup_old_pivots pd cfg s = Inr (s', rem)"
  shows "\<exists>Q. candles_list s' = filter Q (candles_list s)"
proof -
  obtain pk rem1 where e1: "evict_list cfg (peaks_list s) [] = Inr (pk, rem1)"
  proof (cases "evict_list cfg (peaks_list s) []")
    case (Inl e)
    with assms show ?thesis by (simp add: cleanup_old_pivots_def)
  next
    case (Inr x)
    with that show ?thesis by (cases x) simp
  qed
  obtain tr rem' where e2': "evict_list cfg (troughs_list s) rem1 = Inr (tr, rem')"
  proof (cases "evict_list cfg (troughs_list s) rem1")
    case (Inl e)
    with assms e1 show ?thesis by (simp add: cleanup_old_pivots_def)
  next
    case (Inr x)
    with that show ?thesis by (cases x) simp
  qed
  define s1 where "s1 = s\<lparr>peaks_list := pk, troughs_list := tr\<rparr>"
  show ?thesis
  proof (cases "rem' = []")
    case True
    with assms e1 e2' have "s' = s1" by (auto simp: cleanup_old_pivots_def s1_def)
    then have "candles_list s' = filter (\<lambda>_. True) (candles_list s)" by (simp add: s1_def)
    then show ?thesis by blast
  next
    case False
    with assms e1 e2' have "s' = cleanup_old_candles pd (cleanup_old_lines rem' s1)"
      by (auto simp: cleanup_old_pivots_def s1_def)
    moreover have "candles_list (cleanup_old_lines rem' s1) = candles_list s"
      by (simp add: cleanup_old_lines_keep keep_lines_def s1_def)
    ultimately show ?thesis
      using cleanup_old_candles_filter [of pd "cleanup_old_lines rem' s1"] by simp
  qed
qed

lemma candles_update_inv: "detector_inv (s\<lparr>candles_list := cs\<rparr>) = detector_inv s"
  by (simp add: detector_inv_def pivots_inv_def pairs_inv_def)

lemma pivots_shrink_inv:
  assumes inv: "detector_inv s"
    and ev1: "evicted_from (peaks_list s) pk rem1"
    and ev2: "evicted_from (troughs_list s) tr rem2"
  shows "detector_inv (keep_lines (\<lambda>l. \<not> references (set (rem1 @ rem2)) l)
           (s\<lparr>peaks_list := pk, troughs_list := tr\<rparr>))"
proof -
  let ?s1 = "s\<lparr>peaks_list := pk, troughs_list := tr\<rparr>"
  let ?P = "\<lambda>l. \<not> references (set (rem1 @ rem2)) l"
  from inv have piv: "pivots_inv s" and pairs: "pairs_inv s" by (simp_all add: detector_inv_def)
  from pairs have "pairs_inv ?s1" by (simp add: pairs_inv_def)
  then have 1: "pairs_inv (keep_lines ?P ?s1)" by (rule keep_lines_pairs_inv)
  have sub1: "set pk \<subseteq> set (peaks_list s)" using ev1 by (rule evicted_from_subset)
  have sub2: "set tr \<subseteq> set (troughs_list s)" using ev2 by (rule evicted_from_subset)
  from piv have d: "distinct (map p_id (peaks_list s))" "distinct (map p_id (troughs_list s))"
    "p_id ` set (peaks_list s) \<inter> p_id ` set (troughs_list s) = {}"
    by (auto simp: pivots_inv_def)
  have d': "distinct (map p_id (pk @ tr))"
    using evicted_from_distinct [OF ev1 d(1)] evicted_from_distinct [OF ev2 d(2)] d(3) sub1 sub2
    by auto
  have up: "line_ok pk l" if "l \<in> set (upper_lines s)" "?P l" for l
  proof -
    from piv that(1) have ok: "line_ok (peaks_list s) l" by (simp add: pivots_inv_def)
    from that(2) have nr: "p_id (point1 l) \<notin> set rem1" "p_id (point2 l) \<notin> set rem1"
      by (auto simp: references_def)
    from ok have "point1 l \<in> set (peaks_list s)" "point2 l \<in> set (peaks_list s)"
      by (simp_all add: line_ok_def)
    with nr evicted_from_kept_or_removed [OF ev1] have "point1 l \<in> set pk" "point2 l \<in> set pk"
      by blast+
    with ok show ?thesis by (simp add: line_ok_def)
  qed
  have lo: "line_ok tr l" if "l \<in> set (lower_lines s)" "?P l" for l
  proof -
    from piv that(1) have ok: "line_ok (troughs_list s) l" by (simp add: pivots_inv_def)
    from that(2) have nr: "p_id (point1 l) \<notin> set rem2" "p_id (point2 l) \<notin> set rem2"
      by (auto simp: references_def)
    from ok have "point1 l \<in> set (troughs_list s)" "point2 l \<in> set (troughs_list s)"
      by (simp_all add: line_ok_def)
    with nr evicted_from_kept_or_removed [OF ev2] have "point1 l \<in> set tr" "point2 l \<in> set tr"
      by blast+
    with ok show ?thesis by (simp add: line_ok_def)
  qed
  have 2: "pivots_inv (keep_lines ?P ?s1)"
    unfolding pivots_inv_def
    using piv sub1 sub2 d' up lo
    by (auto simp: keep_lines_def pivots_inv_def)
  from 1 2 show ?thesis by (simp add: detector_inv_def)
qed

lemma cleanup_old_pivots_inv:
  assumes "detector_inv s" and "cleanup_old_pivots pd cfg s = Inr (s', rem)"
  shows "detector_inv s'"
proof -
  from cleanup_old_pivots_shape [OF assms(2)] obtain rem1 rem2 where
    rem: "rem = rem1 @ rem2" and
    ev: "evicted_from (peaks_list s) (peaks_list s') rem1"
        "evicted_from (troughs_list s) (troughs_list s') rem2" and
    s': "s' = (keep_lines (\<lambda>l. \<not> references (set rem) l)
                   (s\<lparr>peaks_list := peaks_list s', troughs_list := troughs_list s'\<rparr>))
                \<lparr>candles_list := candles_list s'\<rparr>"
    by blast
  from pivots_shrink_inv [OF assms(1) ev] rem
  have "detector_inv (keep_lines (\<lambda>l. \<not> references (set rem) l)
                   (s\<lparr>peaks_list := peaks_list s', troughs_list := troughs_list s'\<rparr>))"
    by simp
  then have "detector_inv ((keep_lines (\<lambda>l. \<not> references (set rem) l)
                   (s\<lparr>peaks_list := peaks_list s', troughs_list := troughs_list s'\<rparr>))
                \<lparr>candles_list := candles_list s'\<rparr>)"
    by (simp only: candles_update_inv)
  with s' show ?thesis by simp
qed

lemma create_line_Some:
  "create_line ops a b = Some l \<Longrightarrow>
     point1 l = a \<and> point2 l = b \<and> point_ids l = (p_id a, p_id b) \<and>
     l_type l = (if p_type a = Peak then Upper else Lower)"
  by (auto simp: create_line_def Let_def split: if_splits)

lemma sorted_pair_le: "a \<le> b \<Longrightarrow> sorted_pair a b = (a, b)"
  by (simp add: sorted_pair_def)

lemma pair_loop_props:
  assumes "pair_loop ops np olds acc created = (nl, c')"
    and "\<forall>old\<in>set olds. p_id old \<le> p_id np"
  shows "\<exists>added. nl = acc @ added \<and> c' = created \<union> point_ids ` set added \<and>
           (\<forall>l\<in>set added. point1 l \<in> set olds \<and> point2 l = np \<and>
                           p_id (point1 l) < p_id np \<and>
                           point_ids l = (p_id (point1 l), p_id np) \<and>
                           l_type l = (if p_type (point1 l) = Peak then Upper else Lower) \<and>
                           point_ids l \<notin> created) \<and>
           distinct (map point_ids added)"
  using assms
proof (induction olds arbitrary: acc created)
  case Nil
  then show ?case by simp
next
  case (Cons old rest)
  from Cons.prems(2) have le: "p_id old \<le> p_id np" and rest: "\<forall>q\<in>set rest. p_id q \<le> p_id np"
    by simp_all
  let ?pair = "sorted_pair (p_id old) (p_id np)"
  show ?case
  proof (cases "p_id old = p_id np \<or> ?pair \<in> created \<or> create_line ops old np = None")
    case True
    with Cons.prems(1) have "pair_loop ops np rest acc created = (nl, c')"
      by (auto simp: Let_def split: if_splits)
    from Cons.IH [OF this rest] obtain added where
      a: "nl = acc @ added" "c' = created \<union> point_ids ` set added"
         "\<forall>l\<in>set added. point1 l \<in> set rest \<and> point2 l = np \<and>
                           p_id (point1 l) < p_id np \<and>
                           point_ids l = (p_id (point1 l), p_id np) \<and>
                           l_type l = (if p_type (point1 l) = Peak then Upper else Lower) \<and>
                           point_ids l \<notin> created"
         "distinct (map point_ids added)"
      by blast
    from a(3) have "\<forall>l\<in>set added. point1 l \<in> set (old # rest) \<and> point2 l = np \<and>
                           p_id (point1 l) < p_id np \<and>
                           point_ids l = (p_id (point1 l), p_id np) \<and>
                           l_type l = (if p_type (point1 l) = Peak then Upper else Lower) \<and>
                           point_ids l \<notin> created"
      by auto
    with a(1,2,4) show ?thesis by blast
  next
    case False
    then obtain l where l: "create_line ops old np = Some l" and
      ne: "p_id old \<noteq> p_id np" and fresh: "?pair \<notin> created"
      by auto
    from le ne have lt: "p_id old < p_id np" by simp
    then have pair: "?pair = (p_id old, p_id np)" by (simp add: sorted_pair_le)
    from create_line_Some [OF l] have lp:
      "point1 l = old" "point2 l = np" "point_ids l = (p_id old, p_id np)"
      "l_type l = (if p_type old = Peak then Upper else Lower)"
      by simp_all
    from Cons.prems(1) l ne fresh
    have "pair_loop ops np rest (acc @ [l]) (insert ?pair created) = (nl, c')"
      by (simp add: Let_def)
    from Cons.IH [OF this rest] obtain added where
      a: "nl = (acc @ [l]) @ added" "c' = insert ?pair created \<union> point_ids ` set added"
         "\<forall>l\<in>set added. point1 l \<in> set rest \<and> point2 l = np \<and>
                           p_id (point1 l) < p_id np \<and>
                           point_ids l = (p_id (point1 l), p_id np) \<and>
                           l_type l = (if p_type (point1 l) = Peak then Upper else Lower) \<and>
                           point_ids l \<notin> insert ?pair created"
         "distinct (map point_ids added)"
      by blast
    have 1: "nl = acc @ (l # added)" using a(1) by simp
    have 2: "c' = created \<union> point_ids ` set (l # added)"
      using a(2) pair lp(3) by auto
    have 3: "\<forall>l'\<in>set (l # added). point1 l' \<in> set (old # rest) \<and> point2 l' = np \<and>
                           p_id (point1 l') < p_id np \<and>
                           point_ids l' = (p_id (point1 l'), p_id np) \<and>
                           l_type l' = (if p_type (point1 l') = Peak then Upper else Lower) \<and>
                           point_ids l' \<notin> created"
      using a(3) lp lt fresh pair by auto
    have 4: "distinct (map point_ids (l # added))"
      using a(3,4) lp(3) pair by auto
    from 1 2 3 4 show ?thesis by blast
  qed
qed

lemma find_new_pivot_Some:
  assumes "find_new_pivot s pid = Some (np, pl)"
  shows "np \<in> set pl \<and> p_id np = pid \<and> (pl = peaks_list s \<or> pl = troughs_list s)"
proof (cases "find (\<lambda>p. p_id p = pid) (peaks_list s)")
  case (Some p)
  with assms have "np = p" "pl = peaks_list s" by (simp_all add: find_new_pivot_def)
  with Some show ?thesis by (auto simp: find_Some_iff)
next
  case None
  with assms obtain t where t: "find (\<lambda>t. p_id t = pid) (troughs_list s) = Some t"
    by (auto simp: find_new_pivot_def split: option.splits)
  with assms None have "np = t" "pl = troughs_list s" by (simp_all add: find_new_pivot_def)
  with t show ?thesis by (auto simp: find_Some_iff)
qed

lemma pair_loop_fresh_inv:
  assumes inv: "detector_inv s"
    and np: "np \<in> set pl" "pl = peaks_list s \<or> pl = troughs_list s"
    and top: "next_pivot_id s = Suc (p_id np)"
    and pl: "pair_loop ops np pl [] (created_line_pairs s) = (nl, c')"
  shows "detector_inv
           (s\<lparr>created_line_pairs := c',
              upper_lines := upper_lines s @ filter (\<lambda>l. l_type l = Upper) nl,
              lower_lines := lower_lines s @ filter (\<lambda>l. l_type l \<noteq> Upper) nl\<rparr>)"
proof -
  from inv have piv: "pivots_inv s" and pairs: "pairs_inv s" by (simp_all add: detector_inv_def)
  from piv np(2) top have le: "\<forall>old\<in>set pl. p_id old \<le> p_id np"
    by (auto simp: pivots_inv_def less_Suc_eq_le)
  from pair_loop_props [OF pl le] have
    c': "c' = created_line_pairs s \<union> point_ids ` set nl" and
    new: "\<forall>l\<in>set nl. point1 l \<in> set pl \<and> point2 l = np \<and> p_id (point1 l) < p_id np \<and>
                     point_ids l = (p_id (point1 l), p_id np) \<and>
                     l_type l = (if p_type (point1 l) = Peak then Upper else Lower) \<and>
                     point_ids l \<notin> created_line_pairs s" and
    dist: "distinct (map point_ids nl)"
    by auto
  from new np(1) have ok: "\<forall>l\<in>set nl. line_ok pl l"
    by (auto simp: line_ok_def)
  from pairs have dold: "distinct (map point_ids (upper_lines s @ lower_lines s))"
    and cold: "created_line_pairs s = point_ids ` set (upper_lines s @ lower_lines s)"
    by (simp_all add: pairs_inv_def)
  from new cold have disj: "point_ids ` set nl \<inter> point_ids ` set (upper_lines s @ lower_lines s) = {}"
    by auto
  show ?thesis
  proof (cases "pl = peaks_list s")
    case True
    with piv new have "\<forall>l\<in>set nl. l_type l = Upper" by (auto simp: pivots_inv_def)
    then have f: "filter (\<lambda>l. l_type l = Upper) nl = nl" "filter (\<lambda>l. l_type l \<noteq> Upper) nl = []"
      by (simp_all add: filter_empty_conv)
    have 1: "pivots_inv (s\<lparr>created_line_pairs := c', upper_lines := upper_lines s @ nl,
                            lower_lines := lower_lines s @ []\<rparr>)"
      using piv ok True by (auto simp: pivots_inv_def)
    have 2: "pairs_inv (s\<lparr>created_line_pairs := c', upper_lines := upper_lines s @ nl,
                            lower_lines := lower_lines s @ []\<rparr>)"
      using dold dist disj c' cold by (auto simp: pairs_inv_def)
    from 1 2 f show ?thesis by (simp add: detector_inv_def)
  next
    case False
    with np(2) have tr: "pl = troughs_list s" by simp
    with piv new have "\<forall>l\<in>set nl. l_type l = Lower" by (auto simp: pivots_inv_def)
    then have f: "filter (\<lambda>l. l_type l = Upper) nl = []" "filter (\<lambda>l. l_type l \<noteq> Upper) nl = nl"
      by (simp_all add: filter_empty_conv)
    have 1: "pivots_inv (s\<lparr>created_line_pairs := c', upper_lines := upper_lines s @ [],
                            lower_lines := lower_lines s @ nl\<rparr>)"
      using piv ok tr by (auto simp: pivots_inv_def)
    have 2: "pairs_inv (s\<lparr>created_line_pairs := c', upper_lines := upper_lines s @ [],
                            lower_lines := lower_lines s @ nl\<rparr>)"
      using dold dist disj c' cold by (auto simp: pairs_inv_def)
    from 1 2 f show ?thesis by (simp add: detector_inv_def)
  qed
qed

lemma generate_new_lines_cases:
  assumes "generate_new_lines ops pd cfg s pid = Inr (s', nl)"
  shows "(find_new_pivot s pid = None \<and> s' = s \<and> nl = []) \<or>
         (\<exists>np pl c'. find_new_pivot s pid = Some (np, pl) \<and>
            pair_loop ops np pl [] (created_line_pairs s) = (nl, c') \<and>
            (if nl = [] then s' = with_new_lines s nl c'
             else update_valid_lines ops pd cfg (with_new_lines s nl c') = Inr s'))"
proof (cases "find_new_pivot s pid")
  case None
  with assms show ?thesis by (simp add: generate_new_lines_def)
next
  case (Some x)
  obtain np pl where x: "x = (np, pl)" by (cases x)
  obtain nl0 c' where pl: "pair_loop ops np pl [] (created_line_pairs s) = (nl0, c')"
    by (cases "pair_loop ops np pl [] (created_line_pairs s)")
  show ?thesis
  proof (cases "nl0 = []")
    case True
    with assms Some x pl have "s' = with_new_lines s nl0 c'" "nl = nl0"
      by (auto simp: generate_new_lines_def with_new_lines_def)
    with Some x pl True show ?thesis by simp
  next
    case False
    with assms Some x pl have "update_valid_lines ops pd cfg (with_new_lines s nl0 c') = Inr s'" "nl = nl0"
      by (auto simp: generate_new_lines_def with_new_lines_def Let_def split: sum.splits)
    with Some x pl False show ?thesis by simp
  qed
qed

lemma generate_new_lines_inv:
  assumes inv: "detector_inv s" and top: "next_pivot_id s = Suc pid"
    and g: "generate_new_lines ops pd cfg s pid = Inr (s', nl)"
  shows "detector_inv s'"
proof -
  from generate_new_lines_cases [OF g] show ?thesis
  proof
    assume "find_new_pivot s pid = None \<and> s' = s \<and> nl = []"
    with inv show ?thesis by simp
  next
    assume "\<exists>np pl c'. find_new_pivot s pid = Some (np, pl) \<and>
            pair_loop ops np pl [] (created_line_pairs s) = (nl, c') \<and>
            (if nl = [] then s' = with_new_lines s nl c'
             else update_valid_lines ops pd cfg (with_new_lines s nl c') = Inr s')"
    then obtain np pl c' where f: "find_new_pivot s pid = Some (np, pl)"
      and pl: "pair_loop ops np pl [] (created_line_pairs s) = (nl, c')"
      and s': "if nl = [] then s' = with_new_lines s nl c'
               else update_valid_lines ops pd cfg (with_new_lines s nl c') = Inr s'"
      by blast
    from find_new_pivot_Some [OF f] have np: "np \<in> set pl" "p_id np = pid"
      "pl = peaks_list s \<or> pl = troughs_list s" by simp_all
    from top np(2) have "next_pivot_id s = Suc (p_id np)" by simp
    from pair_loop_fresh_inv [OF inv np(1) np(3) this pl]
    have i1: "detector_inv (with_new_lines s nl c')" by (simp add: with_new_lines_def)
    show ?thesis
    proof (cases "nl = []")
      case True
      with s' i1 show ?thesis by simp
    next
      case False
      with s' have "update_valid_lines ops pd cfg (with_new_lines s nl c') = Inr s'" by simp
      from update_valid_lines_keep [OF this] i1 show ?thesis
        by (simp add: keep_lines_inv)
    qed
  qed
qed

lemma generate_new_lines_frame:
  assumes g: "generate_new_lines ops pd cfg s pid = Inr (s', nl)"
  shows "peaks_list s' = peaks_list s \<and> troughs_list s' = troughs_list s \<and>
         candles_list s' = candles_list s \<and> next_pivot_id s' = next_pivot_id s"
proof -
  from generate_new_lines_cases [OF g] show ?thesis
  proof
    assume "find_new_pivot s pid = None \<and> s' = s \<and> nl = []"
    then show ?thesis by simp
  next
    assume "\<exists>np pl c'. find_new_pivot s pid = Some (np, pl) \<and>
            pair_loop ops np pl [] (created_line_pairs s) = (nl, c') \<and>
            (if nl = [] then s' = with_new_lines s nl c'
             else update_valid_lines ops pd cfg (with_new_lines s nl c') = Inr s')"
    then obtain c' where
      s': "if nl = [] then s' = with_new_lines s nl c'
               else update_valid_lines ops pd cfg (with_new_lines s nl c') = Inr s'"
      by blast
    show ?thesis
    proof (cases "nl = []")
      case True
      with s' show ?thesis by (simp add: with_new_lines_def)
    next
      case False
      with s' have "update_valid_lines ops pd cfg (with_new_lines s nl c') = Inr s'" by simp
      from update_valid_lines_keep [OF this] show ?thesis
        by (simp add: keep_lines_def with_new_lines_def)
    qed
  qed
qed

section \<open>Invariants of every run\<close>

lemma add_pivot_traced_None:
  "zz_pivot zz = None \<Longrightarrow>
     add_pivot_traced ops pd cfg s zz =
       Inr (ingest_candle s (zz_candle zz), \<lparr>returned_id = None, removed_ids = [], generated = []\<rparr>)"
  by (simp add: add_pivot_traced_def)

lemma ingest_candle_frame:
  "peaks_list (ingest_candle s c) = peaks_list s"
  "troughs_list (ingest_candle s c) = troughs_list s"
  "next_pivot_id (ingest_candle s c) = next_pivot_id s"
  "upper_lines (ingest_candle s c) = upper_lines s"
  "lower_lines (ingest_candle s c) = lower_lines s"
  "created_line_pairs (ingest_candle s c) = created_line_pairs s"
  by (cases c; simp add: ingest_candle_def)+

lemma add_pivot_traced_Some:
  assumes "zz_pivot zz = Some pv" and "add_pivot_traced ops pd cfg s zz = Inr (s', tr)"
  shows "\<exists>s3. cleanup_old_pivots pd cfg (ingest_pivot (ingest_candle s (zz_candle zz)) pv)
                 = Inr (s3, removed_ids tr) \<and>
              generate_new_lines ops pd cfg s3 (next_pivot_id s) = Inr (s', generated tr) \<and>
              returned_id tr = Some (next_pivot_id s)"
proof -
  let ?s2 = "ingest_pivot (ingest_candle s (zz_candle zz)) pv"
  obtain s3 rem where c: "cleanup_old_pivots pd cfg ?s2 = Inr (s3, rem)"
  proof (cases "cleanup_old_pivots pd cfg ?s2")
    case (Inl e)
    with assms show ?thesis by (simp add: add_pivot_traced_def Let_def)
  next
    case (Inr x)
    with that show ?thesis by (cases x) simp
  qed
  obtain s4 nl where g: "generate_new_lines ops pd cfg s3 (next_pivot_id s) = Inr (s4, nl)"
  proof (cases "generate_new_lines ops pd cfg s3 (next_pivot_id s)")
    case (Inl e)
    with assms c show ?thesis by (simp add: add_pivot_traced_def Let_def ingest_candle_frame)
  next
    case (Inr x)
    with that show ?thesis by (cases x) simp
  qed
  from assms c g have "s' = s4" "tr = \<lparr>returned_id = Some (next_pivot_id s), removed_ids = rem,
      generated = nl\<rparr>"
    by (simp_all add: add_pivot_traced_def Let_def ingest_candle_frame)
  with c g show ?thesis by simp
qed

lemma ingest_pivot_next: "next_pivot_id (ingest_pivot s pv) = Suc (next_pivot_id s)"
  by (simp add: ingest_pivot_def Let_def)

lemma cleanup_old_pivots_frame:
  assumes "cleanup_old_pivots pd cfg s = Inr (s', rem)"
  shows "next_pivot_id s' = next_pivot_id s"
proof -
  from cleanup_old_pivots_shape [OF assms] have
    "s' = (keep_lines (\<lambda>l. \<not> references (set rem) l)
                   (s\<lparr>peaks_list := peaks_list s', troughs_list := troughs_list s'\<rparr>))
                \<lparr>candles_list := candles_list s'\<rparr>"
    by blast
  then have
    s': "s' = (keep_lines (\<lambda>l. \<not> references (set rem) l)
                   (s\<lparr>peaks_list := peaks_list s', troughs_list := troughs_list s'\<rparr>))
                \<lparr>candles_list := candles_list s'\<rparr>"
    by blast
  from arg_cong [OF s', of next_pivot_id] show ?thesis
    by (simp add: keep_lines_def)
qed

lemma add_pivot_traced_inv:
  assumes "detector_inv s" and "add_pivot_traced ops pd cfg s zz = Inr (s', tr)"
  shows "detector_inv s'"
proof (cases "zz_pivot zz")
  case None
  with assms show ?thesis
    by (auto simp: add_pivot_traced_None ingest_candle_inv)
next
  case (Some pv)
  let ?s2 = "ingest_pivot (ingest_candle s (zz_candle zz)) pv"
  from add_pivot_traced_Some [OF Some assms(2)] obtain s3 where
    c: "cleanup_old_pivots pd cfg ?s2 = Inr (s3, removed_ids tr)" and
    g: "generate_new_lines ops pd cfg s3 (next_pivot_id s) = Inr (s', generated tr)"
    by blast
  have "detector_inv ?s2"
    using assms(1) by (simp add: ingest_candle_inv ingest_pivot_inv)
  then have i3: "detector_inv s3" using c by (rule cleanup_old_pivots_inv)
  have "next_pivot_id s3 = Suc (next_pivot_id s)"
    using cleanup_old_pivots_frame [OF c] by (simp add: ingest_pivot_next ingest_candle_frame)
  from generate_new_lines_inv [OF i3 this g] show ?thesis .
qed

lemma run_Cons_Inr:
  assumes "run ops pd cfg s (zz # zzs) = Inr (s', trs)"
  shows "\<exists>s1 tr trs'. add_pivot_traced ops pd cfg s zz = Inr (s1, tr) \<and>
           run ops pd cfg s1 zzs = Inr (s', trs') \<and> trs = tr # trs'"
proof -
  obtain s1 tr where a: "add_pivot_traced ops pd cfg s zz = Inr (s1, tr)"
  proof (cases "add_pivot_traced ops pd cfg s zz")
    case (Inl e)
    with assms show ?thesis by simp
  next
    case (Inr x)
    with that show ?thesis by (cases x) simp
  qed
  obtain s2 trs' where r: "run ops pd cfg s1 zzs = Inr (s2, trs')"
  proof (cases "run ops pd cfg s1 zzs")
    case (Inl e)
    with assms a show ?thesis by simp
  next
    case (Inr x)
    with that show ?thesis by (cases x) simp
  qed
  from assms a r have "s' = s2" "trs = tr # trs'" by simp_all
  with a r show ?thesis by simp
qed

lemma run_inv:
  "detector_inv s \<Longrightarrow> run ops pd cfg s zzs = Inr (s', trs) \<Longrightarrow> detector_inv s'"
proof (induction zzs arbitrary: s trs)
  case Nil
  then show ?case by simp
next
  case (Cons zz zzs)
  from run_Cons_Inr [OF Cons.prems(2)] obtain s1 tr trs' where
    a: "add_pivot_traced ops pd cfg s zz = Inr (s1, tr)" and
    r: "run ops pd cfg s1 zzs = Inr (s', trs')" by blast
  from add_pivot_traced_inv [OF Cons.prems(1) a] have "detector_inv s1" .
  from Cons.IH [OF this r] show ?case .
qed

lemma cleanup_old_pivots_evict:
  assumes "cleanup_old_pivots pd cfg s = Inr (s', rem)"
  shows "\<exists>rem1. evict_list cfg (peaks_list s) [] = Inr (peaks_list s', rem1) \<and>
                evict_list cfg (troughs_list s) rem1 = Inr (troughs_list s', rem)"
proof -
  obtain pk rem1 where e1: "evict_list cfg (peaks_list s) [] = Inr (pk, rem1)"
  proof (cases "evict_list cfg (peaks_list s) []")
    case (Inl e)
    with assms show ?thesis by (simp add: cleanup_old_pivots_def)
  next
    case (Inr x)
    with that show ?thesis by (cases x) simp
  qed
  obtain tr rem' where e2: "evict_list cfg (troughs_list s) rem1 = Inr (tr, rem')"
  proof (cases "evict_list cfg (troughs_list s) rem1")
    case (Inl e)
    with assms e1 show ?thesis by (simp add: cleanup_old_pivots_def)
  next
    case (Inr x)
    with that show ?thesis by (cases x) simp
  qed
  from assms e1 e2 have r: "rem' = rem"
    by (simp add: cleanup_old_pivots_def Let_def split: if_splits)
  define s1 where "s1 = s\<lparr>peaks_list := pk, troughs_list := tr\<rparr>"
  have "peaks_list s' = pk \<and> troughs_list s' = tr"
  proof (cases "rem = []")
    case True
    with assms e1 e2 r have "s' = s1" by (auto simp: cleanup_old_pivots_def s1_def)
    then show ?thesis by (simp add: s1_def)
  next
    case False
    with assms e1 e2 r have "s' = cleanup_old_candles pd (cleanup_old_lines rem s1)"
      by (auto simp: cleanup_old_pivots_def s1_def)
    then have "s' = (keep_lines (\<lambda>l. \<not> references (set rem) l) s1)
        \<lparr>candles_list := candles_list s'\<rparr>"
      using cleanup_old_candles_other [of pd "cleanup_old_lines rem s1"]
      by (simp add: cleanup_old_lines_keep)
    from arg_cong [OF this, of peaks_list] arg_cong [OF this, of troughs_list]
    show ?thesis by (simp add: keep_lines_def s1_def)
  qed
  with e1 e2 r show ?thesis by auto
qed

lemma evict_list_bound:
  assumes "evict_list cfg ps r = Inr (ps', r')"
  shows "(ps \<noteq> [] \<longrightarrow> int (length ps') \<le> max_pivots cfg) \<and> (ps = [] \<longrightarrow> ps' = [])"
  using assms evict_list_length [OF assms] by (auto simp: evict_list_empty)

lemma ingest_pivot_lists:
  "peaks_list (ingest_pivot s pv) \<noteq> [] \<or> troughs_list (ingest_pivot s pv) \<noteq> []"
  by (simp add: ingest_pivot_def Let_def)

lemma add_pivot_traced_bounded:
  assumes a: "add_pivot_traced ops pd cfg s zz = Inr (s', tr)"
    and b: "bounded_pivots cfg s \<or> zz_pivot zz \<noteq> None"
  shows "bounded_pivots cfg s'"
proof (cases "zz_pivot zz")
  case None
  with a b show ?thesis
    by (auto simp: add_pivot_traced_None bounded_pivots_def ingest_candle_frame)
next
  case (Some pv)
  let ?s2 = "ingest_pivot (ingest_candle s (zz_candle zz)) pv"
  from add_pivot_traced_Some [OF Some a] obtain s3 where
    c: "cleanup_old_pivots pd cfg ?s2 = Inr (s3, removed_ids tr)" and
    g: "generate_new_lines ops pd cfg s3 (next_pivot_id s) = Inr (s', generated tr)"
    by blast
  from cleanup_old_pivots_evict [OF c] obtain rem1 where
    e1: "evict_list cfg (peaks_list ?s2) [] = Inr (peaks_list s3, rem1)" and
    e2: "evict_list cfg (troughs_list ?s2) rem1 = Inr (troughs_list s3, removed_ids tr)"
    by blast
  note b1 = evict_list_bound [OF e1] and b2 = evict_list_bound [OF e2]
  from ingest_pivot_lists [of "ingest_candle s (zz_candle zz)" pv] b1 b2
  have "0 \<le> max_pivots cfg" by (auto intro: order_trans [of 0 "int (length _)"])
  with b1 b2 have "bounded_pivots cfg s3"
    by (cases "peaks_list ?s2 = []"; cases "troughs_list ?s2 = []"; simp add: bounded_pivots_def)
  with generate_new_lines_frame [OF g] show ?thesis
    by (simp add: bounded_pivots_def)
qed

lemma run_bounded:
  "run ops pd cfg s zzs = Inr (s', trs) \<Longrightarrow>
     bounded_pivots cfg s \<or> list_ex (\<lambda>zz. zz_pivot zz \<noteq> None) zzs \<Longrightarrow>
     bounded_pivots cfg s'"
proof (induction zzs arbitrary: s trs)
  case Nil
  then show ?case by simp
next
  case (Cons zz zzs)
  from run_Cons_Inr [OF Cons.prems(1)] obtain s1 tr trs' where
    a: "add_pivot_traced ops pd cfg s zz = Inr (s1, tr)" and
    r: "run ops pd cfg s1 zzs = Inr (s', trs')" by blast
  show ?case
  proof (cases "bounded_pivots cfg s \<or> zz_pivot zz \<noteq> None")
    case True
    from add_pivot_traced_bounded [OF a True] have "bounded_pivots cfg s1" .
    then show ?thesis using Cons.IH [OF r] by simp
  next
    case False
    with Cons.prems(2) have "list_ex (\<lambda>zz. zz_pivot zz \<noteq> None) zzs" by simp
    then show ?thesis using Cons.IH [OF r] by simp
  qed
qed

text \<open>
  C5. A run of \<^verbatim>\<open>add_pivot\<close> calls from the constructor's state that returns leaves at
  most \<^verbatim>\<open>max_pivots\<close> peaks and at most \<^verbatim>\<open>max_pivots\<close> troughs, after every call (the
  sequence is any sequence, so every prefix of it). The cap is non-negative, or some
  record of the run carries a pivot: with a negative cap a pivot insertion raises
  IndexError (the count rule pops the emptied list), and with no pivot at all both lists
  are empty.
\<close>

theorem pivot_lists_bounded:
  assumes "run ops pd cfg init_detector zzs = Inr (s, trs)"
    and "0 \<le> max_pivots cfg \<or> list_ex (\<lambda>zz. zz_pivot zz \<noteq> None) zzs"
  shows "int (length (peaks_list s)) \<le> max_pivots cfg \<and>
         int (length (troughs_list s)) \<le> max_pivots cfg"
proof -
  from assms(2) have "bounded_pivots cfg init_detector \<or> list_ex (\<lambda>zz. zz_pivot zz \<noteq> None) zzs"
    by (auto simp: bounded_pivots_def init_detector_def)
  from run_bounded [OF assms(1) this] show ?thesis
    by (simp add: bounded_pivots_def)
qed

lemma ingest_pivot_gone:
  assumes "gone E s"
  shows "gone E (ingest_pivot s pv)"
  using assms by (cases "r_type pv") (auto simp: gone_def ingest_pivot_def Let_def)

lemma ingest_candle_gone: "gone E s \<Longrightarrow> gone E (ingest_candle s c)"
  by (simp add: gone_def ingest_candle_frame)

lemma cleanup_old_pivots_gone:
  assumes inv: "detector_inv s" and g: "gone E s"
    and c: "cleanup_old_pivots pd cfg s = Inr (s', rem)"
  shows "gone (E \<union> set rem) s'"
proof -
  from cleanup_old_pivots_shape [OF c] obtain rem1 rem2 :: "nat list" where
    rem: "rem = rem1 @ rem2" and
    ev1: "evicted_from (peaks_list s) (peaks_list s') rem1" and
    ev2: "evicted_from (troughs_list s) (troughs_list s') rem2"
    by blast
  note nxt = cleanup_old_pivots_frame [OF c]
  from inv have piv: "pivots_inv s" by (simp add: detector_inv_def)
  then have d: "distinct (map p_id (peaks_list s))" "distinct (map p_id (troughs_list s))"
    "p_id ` set (peaks_list s) \<inter> p_id ` set (troughs_list s) = {}"
    and lt: "\<forall>p\<in>set (peaks_list s @ troughs_list s). p_id p < next_pivot_id s"
    by (auto simp: pivots_inv_def)
  have sub1: "set (peaks_list s') \<subseteq> set (peaks_list s)" using ev1 by (rule evicted_from_subset)
  have sub2: "set (troughs_list s') \<subseteq> set (troughs_list s)" using ev2 by (rule evicted_from_subset)
  have old: "e < next_pivot_id s' \<and> e \<notin> p_id ` set (peaks_list s' @ troughs_list s')"
    if "e \<in> E" for e
    using that g sub1 sub2 nxt by (auto simp: gone_def)
  have new1: "e < next_pivot_id s' \<and> e \<notin> p_id ` set (peaks_list s' @ troughs_list s')"
    if e: "e \<in> set rem1" for e
  proof -
    from evicted_from_removed_ids [OF ev1 e] have in1: "e \<in> p_id ` set (peaks_list s)" .
    with lt nxt have "e < next_pivot_id s'" by auto
    moreover from evicted_from_removed_gone [OF ev1 d(1) e] have "e \<notin> p_id ` set (peaks_list s')" .
    moreover from in1 d(3) sub2 have "e \<notin> p_id ` set (troughs_list s')" by auto
    ultimately show ?thesis by auto
  qed
  have new2: "e < next_pivot_id s' \<and> e \<notin> p_id ` set (peaks_list s' @ troughs_list s')"
    if e: "e \<in> set rem2" for e
  proof -
    from evicted_from_removed_ids [OF ev2 e] have in2: "e \<in> p_id ` set (troughs_list s)" .
    with lt nxt have "e < next_pivot_id s'" by auto
    moreover from evicted_from_removed_gone [OF ev2 d(2) e] have "e \<notin> p_id ` set (troughs_list s')" .
    moreover from in2 d(3) sub1 have "e \<notin> p_id ` set (peaks_list s')" by auto
    ultimately show ?thesis by auto
  qed
  from old new1 new2 rem show ?thesis
    unfolding gone_def by auto
qed

lemma add_pivot_traced_gone:
  assumes inv: "detector_inv s" and g: "gone E s"
    and a: "add_pivot_traced ops pd cfg s zz = Inr (s', tr)"
  shows "gone (E \<union> set (removed_ids tr)) s'"
proof (cases "zz_pivot zz")
  case None
  with a g show ?thesis
    by (auto simp: add_pivot_traced_None ingest_candle_gone)
next
  case (Some pv)
  let ?s2 = "ingest_pivot (ingest_candle s (zz_candle zz)) pv"
  from add_pivot_traced_Some [OF Some a] obtain s3 where
    c: "cleanup_old_pivots pd cfg ?s2 = Inr (s3, removed_ids tr)" and
    gen: "generate_new_lines ops pd cfg s3 (next_pivot_id s) = Inr (s', generated tr)"
    by blast
  have i2: "detector_inv ?s2" using inv by (simp add: ingest_candle_inv ingest_pivot_inv)
  have g2: "gone E ?s2" using g by (simp add: ingest_candle_gone ingest_pivot_gone)
  from cleanup_old_pivots_gone [OF i2 g2 c] generate_new_lines_frame [OF gen]
  show ?thesis by (simp add: gone_def)
qed

lemma run_gone:
  "detector_inv s \<Longrightarrow> gone E s \<Longrightarrow> run ops pd cfg s zzs = Inr (s', trs) \<Longrightarrow>
     gone (E \<union> set (concat (map removed_ids trs))) s'"
proof (induction zzs arbitrary: s trs E)
  case Nil
  then show ?case by simp
next
  case (Cons zz zzs)
  from run_Cons_Inr [OF Cons.prems(3)] obtain s1 tr trs' where
    a: "add_pivot_traced ops pd cfg s zz = Inr (s1, tr)" and
    r: "run ops pd cfg s1 zzs = Inr (s', trs')" and t: "trs = tr # trs'" by blast
  from add_pivot_traced_inv [OF Cons.prems(1) a] have i1: "detector_inv s1" .
  from add_pivot_traced_gone [OF Cons.prems(1,2) a] have g1: "gone (E \<union> set (removed_ids tr)) s1" .
  from Cons.IH [OF i1 g1 r] t show ?case by (simp add: Un_assoc)
qed

text \<open>
  C7. After a run of \<^verbatim>\<open>add_pivot\<close> calls from the constructor's state, no resident upper
  or lower line has, as the id of either endpoint, an id that any call of the run put on
  its \<^verbatim>\<open>removed_ids\<close> list (the ids evicted by the count rule or the age rule).
\<close>

theorem evicted_ids_not_referenced:
  assumes "run ops pd cfg init_detector zzs = Inr (s, trs)"
  shows "\<forall>e\<in>set (concat (map removed_ids trs)).
           \<forall>l\<in>set (upper_lines s @ lower_lines s).
             p_id (point1 l) \<noteq> e \<and> p_id (point2 l) \<noteq> e"
proof -
  have "gone {} init_detector" by (simp add: gone_def)
  from run_gone [OF init_inv this assms]
  have g: "gone (set (concat (map removed_ids trs))) s" by simp
  from run_inv [OF init_inv assms] have "pivots_inv s" by (simp add: detector_inv_def)
  then have "\<forall>l\<in>set (upper_lines s @ lower_lines s).
      point1 l \<in> set (peaks_list s @ troughs_list s) \<and>
      point2 l \<in> set (peaks_list s @ troughs_list s)"
    by (auto simp: pivots_inv_def line_ok_def)
  with g show ?thesis
    unfolding gone_def by blast
qed

lemma distinct_map_transfer:
  assumes "distinct (map g xs)" and "\<And>x y. x \<in> set xs \<Longrightarrow> y \<in> set xs \<Longrightarrow> f x = f y \<Longrightarrow> g x = g y"
  shows "distinct (map f xs)"
proof -
  from assms(1) have dx: "distinct xs" and inj: "inj_on g (set xs)"
    by (simp_all add: distinct_map)
  have "inj_on f (set xs)"
  proof (rule inj_onI)
    fix x y assume xy: "x \<in> set xs" "y \<in> set xs" and "f x = f y"
    then have "g x = g y" by (rule assms(2))
    with inj xy show "x = y" by (simp add: inj_on_def)
  qed
  with dx show ?thesis by (simp add: distinct_map)
qed

lemma endpoint_ids_point_ids:
  assumes "line_ok ps l" and "line_ok qs m" and "endpoint_ids l = endpoint_ids m"
  shows "point_ids l = point_ids m"
proof -
  from assms(1,2) have l: "p_id (point1 l) < p_id (point2 l)" "point_ids l = (p_id (point1 l), p_id (point2 l))"
    and m: "p_id (point1 m) < p_id (point2 m)" "point_ids m = (p_id (point1 m), p_id (point2 m))"
    by (simp_all add: line_ok_def)
  from assms(3) have "{p_id (point1 l), p_id (point2 l)} = {p_id (point1 m), p_id (point2 m)}"
    by (simp add: endpoint_ids_def)
  then have "(p_id (point1 l) = p_id (point1 m) \<and> p_id (point2 l) = p_id (point2 m)) \<or>
             (p_id (point1 l) = p_id (point2 m) \<and> p_id (point2 l) = p_id (point1 m))"
    by (simp only: doubleton_eq_iff)
  with l(1) m(1) have "p_id (point1 l) = p_id (point1 m) \<and> p_id (point2 l) = p_id (point2 m)"
    by linarith
  with l(2) m(2) show ?thesis by simp
qed

text \<open>
  C6. After a run of \<^verbatim>\<open>add_pivot\<close> calls from the constructor's state, no two resident
  upper lines have the same unordered pair of endpoint ids, and no two resident lower
  lines have. (The run removes the pairs of rejected and evicted lines from
  \<^verbatim>\<open>created_line_pairs\<close> as the code does.)
\<close>

theorem no_duplicate_lines:
  assumes "run ops pd cfg init_detector zzs = Inr (s, trs)"
  shows "distinct (map endpoint_ids (upper_lines s)) \<and> distinct (map endpoint_ids (lower_lines s))"
proof -
  from run_inv [OF init_inv assms] have piv: "pivots_inv s" and pairs: "pairs_inv s"
    by (simp_all add: detector_inv_def)
  from pairs have d: "distinct (map point_ids (upper_lines s))" "distinct (map point_ids (lower_lines s))"
    by (simp_all add: pairs_inv_def)
  have "distinct (map endpoint_ids (upper_lines s))"
    using d(1)
  proof (rule distinct_map_transfer)
    fix x y assume xy: "x \<in> set (upper_lines s)" "y \<in> set (upper_lines s)"
      and eq: "endpoint_ids x = endpoint_ids y"
    from piv xy have "line_ok (peaks_list s) x" "line_ok (peaks_list s) y"
      by (simp_all add: pivots_inv_def)
    then show "point_ids x = point_ids y" using eq by (rule endpoint_ids_point_ids)
  qed
  moreover have "distinct (map endpoint_ids (lower_lines s))"
    using d(2)
  proof (rule distinct_map_transfer)
    fix x y assume xy: "x \<in> set (lower_lines s)" "y \<in> set (lower_lines s)"
      and eq: "endpoint_ids x = endpoint_ids y"
    from piv xy have "line_ok (troughs_list s) x" "line_ok (troughs_list s) y"
      by (simp_all add: pivots_inv_def)
    then show "point_ids x = point_ids y" using eq by (rule endpoint_ids_point_ids)
  qed
  ultimately show ?thesis by simp
qed

text \<open>
  C10. After a run of \<^verbatim>\<open>add_pivot\<close> calls from the constructor's state, every resident
  line has \<open>point1.id < point2.id\<close>, its stored \<^verbatim>\<open>point_ids\<close> is the sorted id pair that
  was added to \<^verbatim>\<open>created_line_pairs\<close>, and \<^verbatim>\<open>created_line_pairs\<close> holds exactly the
  sorted pairs of the resident lines: every discard of a rejected or evicted line's
  \<^verbatim>\<open>point_ids\<close> did remove its pair.
\<close>

theorem line_endpoints_ordered:
  assumes "run ops pd cfg init_detector zzs = Inr (s, trs)"
  shows "(\<forall>l\<in>set (upper_lines s @ lower_lines s).
            p_id (point1 l) < p_id (point2 l) \<and>
            point_ids l = sorted_pair (p_id (point1 l)) (p_id (point2 l))) \<and>
         created_line_pairs s =
           (\<lambda>l. sorted_pair (p_id (point1 l)) (p_id (point2 l))) ` set (upper_lines s @ lower_lines s)"
proof -
  from run_inv [OF init_inv assms] have piv: "pivots_inv s" and pairs: "pairs_inv s"
    by (simp_all add: detector_inv_def)
  from piv have 1: "\<forall>l\<in>set (upper_lines s @ lower_lines s).
            p_id (point1 l) < p_id (point2 l) \<and>
            point_ids l = sorted_pair (p_id (point1 l)) (p_id (point2 l))"
    by (auto simp: pivots_inv_def line_ok_def sorted_pair_le)
  from pairs have "created_line_pairs s = point_ids ` set (upper_lines s @ lower_lines s)"
    by (simp add: pairs_inv_def)
  also have "\<dots> = (\<lambda>l. sorted_pair (p_id (point1 l)) (p_id (point2 l))) ` set (upper_lines s @ lower_lines s)"
    using 1 by (intro image_cong) auto
  finally show ?thesis using 1 by blast
qed

lemma ingest_pivot_candles: "candles_list (ingest_pivot s pv) = candles_list s"
  by (simp add: ingest_pivot_def Let_def)

lemma add_pivot_traced_candles:
  assumes "add_pivot_traced ops pd cfg s zz = Inr (s', tr)"
  shows "length (candles_list s') \<le> Suc (length (candles_list s))"
proof -
  have ic: "length (candles_list (ingest_candle s (zz_candle zz))) \<le> Suc (length (candles_list s))"
    by (cases "zz_candle zz") (simp_all add: ingest_candle_def)
  show ?thesis
  proof (cases "zz_pivot zz")
    case None
    with assms ic show ?thesis by (auto simp: add_pivot_traced_None)
  next
    case (Some pv)
    let ?s2 = "ingest_pivot (ingest_candle s (zz_candle zz)) pv"
    from add_pivot_traced_Some [OF Some assms] obtain s3 where
      c: "cleanup_old_pivots pd cfg ?s2 = Inr (s3, removed_ids tr)" and
      g: "generate_new_lines ops pd cfg s3 (next_pivot_id s) = Inr (s', generated tr)"
      by blast
    from cleanup_old_pivots_candles [OF c] obtain Q where
      "candles_list s3 = filter Q (candles_list ?s2)" by blast
    then have "length (candles_list s3) \<le> length (candles_list (ingest_candle s (zz_candle zz)))"
      by (simp add: ingest_pivot_candles)
    with ic generate_new_lines_frame [OF g] show ?thesis by simp
  qed
qed

lemma run_candles:
  "run ops pd cfg s zzs = Inr (s', trs) \<Longrightarrow>
     length (candles_list s') \<le> length (candles_list s) + length zzs"
proof (induction zzs arbitrary: s trs)
  case Nil
  then show ?case by simp
next
  case (Cons zz zzs)
  from run_Cons_Inr [OF Cons.prems] obtain s1 tr trs' where
    a: "add_pivot_traced ops pd cfg s zz = Inr (s1, tr)" and
    r: "run ops pd cfg s1 zzs = Inr (s', trs')" by blast
  from add_pivot_traced_candles [OF a] Cons.IH [OF r] show ?case by simp
qed

text \<open>
  C4, as the code has it. After a run of \<^verbatim>\<open>add_pivot\<close> calls from the constructor's state
  with a non-negative cap, peaks and troughs hold at most \<^verbatim>\<open>max_pivots\<close> elements each,
  and the candle list holds at most as many candles as there were calls: a call appends
  at most one candle, and candles are only dropped when a pivot is evicted.
\<close>

theorem sequences_bounded_by_calls:
  assumes "run ops pd cfg init_detector zzs = Inr (s, trs)" and "0 \<le> max_pivots cfg"
  shows "int (length (peaks_list s)) \<le> max_pivots cfg \<and>
         int (length (troughs_list s)) \<le> max_pivots cfg \<and>
         length (candles_list s) \<le> length zzs"
proof -
  from assms(2) have "bounded_pivots cfg init_detector \<or> list_ex (\<lambda>zz. zz_pivot zz \<noteq> None) zzs"
    by (simp add: bounded_pivots_def init_detector_def)
  from run_bounded [OF assms(1) this] run_candles [OF assms(1)] show ?thesis
    by (simp add: bounded_pivots_def init_detector_def)
qed

lemma run_candle_only:
  "run ops pd cfg s (replicate n demo_candle_only) =
     Inr (s\<lparr>candles_list := candles_list s @ replicate n (demo_candle 0)\<rparr>,
          replicate n \<lparr>returned_id = None, removed_ids = [], generated = []\<rparr>)"
proof (induction n arbitrary: s)
  case 0
  then show ?case by simp
next
  case (Suc n)
  have "add_pivot_traced ops pd cfg s demo_candle_only =
      Inr (s\<lparr>candles_list := candles_list s @ [demo_candle 0]\<rparr>,
           \<lparr>returned_id = None, removed_ids = [], generated = []\<rparr>)"
    by (simp add: add_pivot_traced_def demo_candle_only_def ingest_candle_def)
  then show ?case
    by (simp add: Suc.IH replicate_app_Cons_same)
qed

text \<open>
  No bound on the candle list depends on the configuration only: records that carry a
  candle and no pivot grow it by one each, and nothing trims it.
\<close>

theorem candles_unbounded_counterexample:
  "\<not> (\<exists>B. \<forall>n. case run exact_ops demo_pd demo_cfg init_detector (replicate n demo_candle_only) of
               Inl e \<Rightarrow> True
             | Inr (s, trs) \<Rightarrow> length (candles_list s) \<le> B)"
proof
  assume "\<exists>B. \<forall>n. case run exact_ops demo_pd demo_cfg init_detector (replicate n demo_candle_only) of
               Inl e \<Rightarrow> True
             | Inr (s, trs) \<Rightarrow> length (candles_list s) \<le> B"
  then obtain B where "\<forall>n. case run exact_ops demo_pd demo_cfg init_detector (replicate n demo_candle_only) of
               Inl e \<Rightarrow> True
             | Inr (s, trs) \<Rightarrow> length (candles_list s) \<le> B" ..
  then have "case run exact_ops demo_pd demo_cfg init_detector (replicate (Suc B) demo_candle_only) of
               Inl e \<Rightarrow> True
             | Inr (s, trs) \<Rightarrow> length (candles_list s) \<le> B" ..
  then show False
    by (simp only: run_candle_only) (simp add: init_detector_def)
qed



text \<open>
  Out of time order a resident line can fail validation: two peaks give an accepted flat
  upper line; a record with no pivot then delivers a candle earlier than the second peak,
  inside the line's span, whose high is 1.5625 percent above the line; the line stays
  resident and fails the penetration stage.
\<close>

lemma out_of_order_candle_breaks_line:
  "\<not> in_time_order demo_pd None demo_flat_records \<and>
   map_sum id (\<lambda>(s, trs). (upper_lines s,
        map (validate_single_line exact_ops demo_pd demo_cfg (candles_list s)) (upper_lines s)))
     (run exact_ops demo_pd demo_cfg init_detector demo_flat_records) =
   Inr ([demo_flat_upper], [Inr (False, PenetrationTooStrong (25 / 16) (3 / 10))])"
  by (simp add: demo_flat_records_def demo_flat_upper_def demo_high_candle_def demo_defs
      engine_defs clock_after_def advance_clock_def not_before_def candle_ms_def Let_def)

lemma demo_third_add:
  "add_pivot_traced exact_ops demo_pd demo_small_cfg demo_after_two_troughs (demo_zz 5400000 94000 Trough) =
     Inr (demo_after_three_troughs, demo_third_call)"
  by (simp add: demo_small_cfg_def demo_after_two_troughs_def demo_after_three_troughs_def
      demo_third_call_def demo_lower_line_def demo_second_line_def demo_defs engine_defs Let_def)

lemma demo_run_three_troughs:
  "run exact_ops demo_pd demo_small_cfg init_detector demo_three_troughs =
     Inr (demo_after_three_troughs, demo_trace_three_troughs)"
  by (simp add: demo_small_cfg_def demo_three_troughs_def demo_two_troughs_def
      demo_after_three_troughs_def demo_trace_three_troughs_def demo_trace_two_troughs_def
      demo_third_call_def demo_lower_line_def demo_second_line_def demo_defs engine_defs Let_def)

theorem pivot_lists_bounded_witness:
  "run exact_ops demo_pd demo_small_cfg init_detector demo_three_troughs =
     Inr (demo_after_three_troughs, demo_trace_three_troughs) \<and>
   list_ex (\<lambda>zz. zz_pivot zz \<noteq> None) demo_three_troughs \<and>
   max_pivots demo_small_cfg = 2 \<and>
   length (troughs_list demo_after_three_troughs) = 2 \<and>
   int (length (peaks_list demo_after_three_troughs)) \<le> max_pivots demo_small_cfg \<and>
   int (length (troughs_list demo_after_three_troughs)) \<le> max_pivots demo_small_cfg"
proof -
  have h: "0 \<le> max_pivots demo_small_cfg \<or> list_ex (\<lambda>zz. zz_pivot zz \<noteq> None) demo_three_troughs"
    by (simp add: demo_small_cfg_def demo_cfg_def)
  have "list_ex (\<lambda>zz. zz_pivot zz \<noteq> None) demo_three_troughs"
    by (simp add: demo_three_troughs_def demo_two_troughs_def demo_zz_def)
  moreover have "max_pivots demo_small_cfg = 2" by (simp add: demo_small_cfg_def)
  moreover have "length (troughs_list demo_after_three_troughs) = 2"
    by (simp add: demo_after_three_troughs_def)
  ultimately show ?thesis
    using pivot_lists_bounded [OF demo_run_three_troughs h] demo_run_three_troughs by simp
qed

theorem sequences_bounded_by_calls_witness:
  "run exact_ops demo_pd demo_small_cfg init_detector demo_three_troughs =
     Inr (demo_after_three_troughs, demo_trace_three_troughs) \<and>
   0 \<le> max_pivots demo_small_cfg \<and>
   int (length (peaks_list demo_after_three_troughs)) \<le> max_pivots demo_small_cfg \<and>
   int (length (troughs_list demo_after_three_troughs)) \<le> max_pivots demo_small_cfg \<and>
   length (candles_list demo_after_three_troughs) \<le> length demo_three_troughs"
proof -
  have h: "0 \<le> max_pivots demo_small_cfg" by (simp add: demo_small_cfg_def)
  from sequences_bounded_by_calls [OF demo_run_three_troughs h] demo_run_three_troughs h
  show ?thesis by simp
qed

theorem no_duplicate_lines_witness:
  "run exact_ops demo_pd demo_small_cfg init_detector demo_three_troughs =
     Inr (demo_after_three_troughs, demo_trace_three_troughs) \<and>
   map endpoint_ids (lower_lines demo_after_three_troughs) = [{1, 2}] \<and>
   distinct (map endpoint_ids (upper_lines demo_after_three_troughs)) \<and>
   distinct (map endpoint_ids (lower_lines demo_after_three_troughs))"
proof -
  have "map endpoint_ids (lower_lines demo_after_three_troughs) = [{1, 2}]"
    by (simp add: demo_after_three_troughs_def demo_second_line_def endpoint_ids_def demo_pivot_def)
  with no_duplicate_lines [OF demo_run_three_troughs] demo_run_three_troughs
  show ?thesis by simp
qed

theorem evicted_ids_not_referenced_witness:
  "run exact_ops demo_pd demo_small_cfg init_detector demo_three_troughs =
     Inr (demo_after_three_troughs, demo_trace_three_troughs) \<and>
   concat (map removed_ids demo_trace_three_troughs) = [0] \<and>
   upper_lines demo_after_three_troughs @ lower_lines demo_after_three_troughs = [demo_second_line] \<and>
   p_id (point1 demo_second_line) \<noteq> 0 \<and> p_id (point2 demo_second_line) \<noteq> 0"
proof -
  have r: "concat (map removed_ids demo_trace_three_troughs) = [0]"
    by (simp add: demo_trace_three_troughs_def demo_trace_two_troughs_def demo_third_call_def)
  have l: "upper_lines demo_after_three_troughs @ lower_lines demo_after_three_troughs =
      [demo_second_line]"
    by (simp add: demo_after_three_troughs_def)
  from evicted_ids_not_referenced [OF demo_run_three_troughs] r l
  have "p_id (point1 demo_second_line) \<noteq> 0 \<and> p_id (point2 demo_second_line) \<noteq> 0"
    by simp
  with demo_run_three_troughs r l show ?thesis by simp
qed

theorem line_endpoints_ordered_witness:
  "run exact_ops demo_pd demo_small_cfg init_detector demo_three_troughs =
     Inr (demo_after_three_troughs, demo_trace_three_troughs) \<and>
   upper_lines demo_after_three_troughs @ lower_lines demo_after_three_troughs = [demo_second_line] \<and>
   p_id (point1 demo_second_line) < p_id (point2 demo_second_line) \<and>
   point_ids demo_second_line =
     sorted_pair (p_id (point1 demo_second_line)) (p_id (point2 demo_second_line)) \<and>
   created_line_pairs demo_after_three_troughs =
     {sorted_pair (p_id (point1 demo_second_line)) (p_id (point2 demo_second_line))}"
proof -
  have l: "upper_lines demo_after_three_troughs @ lower_lines demo_after_three_troughs =
      [demo_second_line]"
    by (simp add: demo_after_three_troughs_def)
  from line_endpoints_ordered [OF demo_run_three_troughs] l
  have "p_id (point1 demo_second_line) < p_id (point2 demo_second_line) \<and>
        point_ids demo_second_line =
          sorted_pair (p_id (point1 demo_second_line)) (p_id (point2 demo_second_line)) \<and>
        created_line_pairs demo_after_three_troughs =
          {sorted_pair (p_id (point1 demo_second_line)) (p_id (point2 demo_second_line))}"
    by simp
  with demo_run_three_troughs l show ?thesis by simp
qed

section \<open>Malformed timestamps and re-validation\<close>

lemma py_int_of_int: "py_int (of_int k) = k"
  by (simp add: py_int_def)

lemma to_ms_norm: "to_ms pd (c_timestamp (norm_candle pd c)) = to_ms pd (c_timestamp c)"
  by (simp add: norm_candle_def to_ms_def py_int_of_int)

lemma norm_candle_fields:
  "c_high (norm_candle pd c) = c_high c" "c_low (norm_candle pd c) = c_low c"
  by (simp_all add: norm_candle_def)

lemma spec_line_price_norm:
  "spec_line_price ops pd l (norm_candle pd c) = spec_line_price ops pd l c"
  by (simp add: spec_line_price_def to_ms_norm)

lemma spec_norm:
  "spec_between pd l (norm_candle pd c) = spec_between pd l c"
  "spec_penetrates ops pd l (norm_candle pd c) = spec_penetrates ops pd l c"
  "spec_magnitude ops pd l (norm_candle pd c) = spec_magnitude ops pd l c"
  by (simp_all add: spec_between_def spec_penetrates_def spec_magnitude_def
      spec_line_price_norm to_ms_norm norm_candle_fields split: line_type.splits)

lemma filter_map_norm:
  assumes "\<And>c. P (norm_candle pd c) = P c"
  shows "filter P (map (norm_candle pd) cs) = map (norm_candle pd) (filter P cs)"
  using assms by (induction cs) simp_all

lemma pen_verdict_pcts:
  "map penetration_pct pens = map penetration_pct pens' \<Longrightarrow> pen_verdict cfg pens = pen_verdict cfg pens'"
proof -
  assume eq: "map penetration_pct pens = map penetration_pct pens'"
  then have len: "length pens = length pens'" by (rule map_eq_imp_length_eq)
  have f: "map_option penetration_pct (find (\<lambda>pen. penetration_pct pen > m) pens) =
           map_option penetration_pct (find (\<lambda>pen. penetration_pct pen > m) pens')" for m
    using eq
  proof (induction pens arbitrary: pens')
    case Nil
    then show ?case by simp
  next
    case (Cons a pens)
    then obtain b ps where "pens' = b # ps" by (cases pens') auto
    with Cons show ?case by auto
  qed
  show ?thesis
    using len f [of "max_penetration_pct cfg"]
    by (auto simp: pen_verdict_def split: option.splits)
qed

lemma check_line_penetration_closed:
  "check_line_penetration ops pd cfg cs l =
     (let between = filter (spec_between pd l) cs
      in if between = [] then Inr (True, OK)
         else if list_ex (\<lambda>c. spec_penetrates ops pd l c \<and> spec_line_price ops pd l c = 0) between
              then Inl ZeroDivisionError
              else pen_verdict cfg (map (spec_pen ops pd l) (filter (spec_penetrates ops pd l) between)))"
proof (cases "filter (spec_between pd l) cs = []")
  case True
  then show ?thesis
    by (simp add: check_line_penetration_def candles_between_spec Let_def)
next
  case False
  then have cs: "cs \<noteq> []" by auto
  show ?thesis
  proof (cases "list_ex (\<lambda>c. spec_penetrates ops pd l c \<and> spec_line_price ops pd l c = 0)
                  (filter (spec_between pd l) cs)")
    case True
    then have "\<exists>c\<in>set (filter (spec_between pd l) cs).
        spec_penetrates ops pd l c \<and> spec_line_price ops pd l c = 0"
      by (simp add: list_ex_iff)
    from penetration_stage_zero_division [OF this] True False show ?thesis
      by (simp add: Let_def)
  next
    case nz: False
    then have "\<forall>c\<in>set (filter (spec_between pd l) cs).
        spec_penetrates ops pd l c \<longrightarrow> spec_line_price ops pd l c \<noteq> 0"
      by (auto simp: list_ex_iff)
    from penetrating_loop_spec [OF this, of "[]"] False cs nz show ?thesis
      by (simp add: check_line_penetration_def candles_between_spec Let_def pen_verdict_def
          del: set_filter)
  qed
qed

lemma list_ex_map_norm:
  assumes "\<And>c. P (norm_candle pd c) = P c"
  shows "list_ex P (map (norm_candle pd) cs) = list_ex P cs"
  using assms by (induction cs) simp_all

lemma check_line_penetration_norm:
  "check_line_penetration ops pd cfg (map (norm_candle pd) cs) l = check_line_penetration ops pd cfg cs l"
proof -
  have b: "filter (spec_between pd l) (map (norm_candle pd) cs) =
           map (norm_candle pd) (filter (spec_between pd l) cs)"
    by (rule filter_map_norm) (simp add: spec_norm)
  have p: "filter (spec_penetrates ops pd l) (map (norm_candle pd) xs) =
           map (norm_candle pd) (filter (spec_penetrates ops pd l) xs)" for xs
    by (rule filter_map_norm) (simp add: spec_norm)
  have z: "list_ex (\<lambda>c. spec_penetrates ops pd l c \<and> spec_line_price ops pd l c = 0) (map (norm_candle pd) xs) =
           list_ex (\<lambda>c. spec_penetrates ops pd l c \<and> spec_line_price ops pd l c = 0) xs" for xs
    by (rule list_ex_map_norm) (simp add: spec_norm spec_line_price_norm)
  have v: "pen_verdict cfg (map (spec_pen ops pd l) (map (norm_candle pd) xs)) =
           pen_verdict cfg (map (spec_pen ops pd l) xs)" for xs
    by (rule pen_verdict_pcts) (simp add: spec_pen_def spec_norm)
  show ?thesis
    unfolding check_line_penetration_closed Let_def b p z v
    by simp
qed

lemma validate_single_line_norm:
  "validate_single_line ops pd cfg (map (norm_candle pd) cs) l = validate_single_line ops pd cfg cs l"
  by (simp add: validate_single_line_def check_line_penetration_norm Let_def cong: if_cong)

lemma filter_valid_norm:
  "filter_valid ops pd cfg (map (norm_candle pd) cs) ls acc created = filter_valid ops pd cfg cs ls acc created"
  by (induction ls arbitrary: acc created)
    (simp_all add: validate_single_line_norm split: sum.splits)

lemma norm_detector_fields:
  "peaks_list (norm_detector pd s) = peaks_list s"
  "troughs_list (norm_detector pd s) = troughs_list s"
  "candles_list (norm_detector pd s) = map (norm_candle pd) (candles_list s)"
  "next_pivot_id (norm_detector pd s) = next_pivot_id s"
  "upper_lines (norm_detector pd s) = upper_lines s"
  "lower_lines (norm_detector pd s) = lower_lines s"
  "created_line_pairs (norm_detector pd s) = created_line_pairs s"
  by (simp_all add: norm_detector_def)

lemma update_valid_lines_norm:
  "update_valid_lines ops pd cfg (norm_detector pd s) =
     map_sum id (norm_detector pd) (update_valid_lines ops pd cfg s)"
  by (simp add: update_valid_lines_def norm_detector_fields filter_valid_norm
      split: sum.splits prod.splits)

lemma cleanup_old_lines_norm:
  "cleanup_old_lines rem (norm_detector pd s) = norm_detector pd (cleanup_old_lines rem s)"
  by (simp add: cleanup_old_lines_def norm_detector_def Let_def)

lemma oldest_pivot_ts_norm: "oldest_pivot_ts (norm_detector pd s) = oldest_pivot_ts s"
  by (simp add: oldest_pivot_ts_def norm_detector_fields)

lemma cleanup_old_candles_norm:
  "cleanup_old_candles pd (norm_detector pd s) = norm_detector pd (cleanup_old_candles pd s)"
proof (cases "oldest_pivot_ts s")
  case None
  then show ?thesis
    by (simp add: cleanup_old_candles_def oldest_pivot_ts_norm norm_detector_fields)
next
  case (Some ts)
  have "filter (\<lambda>c. to_ms pd (TsNum ts) \<le> to_ms pd (c_timestamp c)) (map (norm_candle pd) cs) =
        map (norm_candle pd) (filter (\<lambda>c. to_ms pd (TsNum ts) \<le> to_ms pd (c_timestamp c)) cs)" for cs
    by (rule filter_map_norm) (simp add: to_ms_norm)
  with Some show ?thesis
    by (simp add: cleanup_old_candles_def oldest_pivot_ts_norm norm_detector_fields Let_def)
qed

lemma cleanup_old_pivots_norm:
  "cleanup_old_pivots pd cfg (norm_detector pd s) = norm_outcome pd (cleanup_old_pivots pd cfg s)"
proof (cases "evict_list cfg (peaks_list s) []")
  case (Inl e)
  then show ?thesis
    by (simp add: cleanup_old_pivots_def norm_detector_fields norm_outcome_def)
next
  case (Inr x)
  obtain pk rem1 where x: "x = (pk, rem1)" by (cases x)
  show ?thesis
  proof (cases "evict_list cfg (troughs_list s) rem1")
    case (Inl e)
    with Inr x show ?thesis
      by (simp add: cleanup_old_pivots_def norm_detector_fields norm_outcome_def)
  next
    case i2: (Inr y)
    obtain tr rem where y: "y = (tr, rem)" by (cases y)
    have n: "(norm_detector pd s)\<lparr>peaks_list := pk, troughs_list := tr\<rparr> =
             norm_detector pd (s\<lparr>peaks_list := pk, troughs_list := tr\<rparr>)"
      by (simp add: norm_detector_def)
    from Inr x i2 y show ?thesis
      by (simp add: cleanup_old_pivots_def norm_detector_fields norm_outcome_def Let_def n
          cleanup_old_lines_norm cleanup_old_candles_norm)
  qed
qed

lemma find_new_pivot_norm: "find_new_pivot (norm_detector pd s) pid = find_new_pivot s pid"
  by (simp add: find_new_pivot_def norm_detector_fields split: option.splits)

lemma generate_new_lines_norm:
  "generate_new_lines ops pd cfg (norm_detector pd s) pid = norm_outcome pd (generate_new_lines ops pd cfg s pid)"
proof (cases "find_new_pivot s pid")
  case None
  then show ?thesis
    by (simp add: generate_new_lines_def find_new_pivot_norm norm_outcome_def)
next
  case (Some x)
  obtain np pl where x: "x = (np, pl)" by (cases x)
  obtain nl c' where p: "pair_loop ops np pl [] (created_line_pairs s) = (nl, c')"
    by (cases "pair_loop ops np pl [] (created_line_pairs s)")
  have n: "(norm_detector pd s)\<lparr>created_line_pairs := c',
               upper_lines := upper_lines s @ filter (\<lambda>l. l_type l = Upper) nl,
               lower_lines := lower_lines s @ filter (\<lambda>l. l_type l \<noteq> Upper) nl\<rparr> =
           norm_detector pd (s\<lparr>created_line_pairs := c',
               upper_lines := upper_lines s @ filter (\<lambda>l. l_type l = Upper) nl,
               lower_lines := lower_lines s @ filter (\<lambda>l. l_type l \<noteq> Upper) nl\<rparr>)"
    by (simp add: norm_detector_def)
  from Some x p show ?thesis
    by (simp add: generate_new_lines_def find_new_pivot_norm norm_detector_fields Let_def n
        update_valid_lines_norm norm_outcome_def split: sum.splits)
qed

lemma ingest_candle_norm:
  "ingest_candle (norm_detector pd s) (map_option (norm_candle pd) c) =
     norm_detector pd (ingest_candle s c)"
  by (cases c) (simp_all add: ingest_candle_def norm_detector_def)

lemma ingest_pivot_norm:
  "ingest_pivot (norm_detector pd s) pv = norm_detector pd (ingest_pivot s pv)"
  by (simp add: ingest_pivot_def norm_detector_def Let_def)

lemma add_pivot_traced_norm:
  "add_pivot_traced ops pd cfg (norm_detector pd s) (norm_zz pd zz) =
     norm_outcome pd (add_pivot_traced ops pd cfg s zz)"
proof (cases "zz_pivot zz")
  case None
  then show ?thesis
    by (simp add: add_pivot_traced_def norm_zz_def ingest_candle_norm norm_outcome_def)
next
  case (Some pv)
  let ?s2 = "ingest_pivot (ingest_candle s (zz_candle zz)) pv"
  show ?thesis
  proof (cases "cleanup_old_pivots pd cfg ?s2")
    case (Inl e)
    with Some show ?thesis
      by (simp add: add_pivot_traced_def norm_zz_def ingest_candle_norm ingest_pivot_norm
          cleanup_old_pivots_norm norm_outcome_def Let_def)
  next
    case (Inr x)
    obtain s3 rem where x: "x = (s3, rem)" by (cases x)
    from Some Inr x show ?thesis
      by (simp add: add_pivot_traced_def norm_zz_def ingest_candle_norm ingest_pivot_norm
          cleanup_old_pivots_norm generate_new_lines_norm norm_outcome_def Let_def
          norm_detector_fields split: sum.splits)
  qed
qed

lemma add_pivot_norm:
  "add_pivot ops pd cfg (norm_detector pd s) (norm_zz pd zz) = norm_outcome pd (add_pivot ops pd cfg s zz)"
  by (simp add: add_pivot_def add_pivot_traced_norm norm_outcome_def split: sum.splits)

text \<open>
  C9. For a timestamp value that is not a number and does not parse, \<^verbatim>\<open>to_ms\<close> returns 0.
  An \<^verbatim>\<open>add_pivot\<close> call whose candle carries such a timestamp has the outcome of the same
  call with the candle's timestamp the number 0: the same exception or the same returned
  id, and detectors that agree once every stored candle timestamp is replaced by its
  normalised value. With no pivot in the record the call returns.
\<close>

theorem malformed_timestamp_is_epoch_zero:
  assumes "pd v = None"
  shows "to_ms pd (TsOther v) = 0 \<and>
         norm_outcome pd (add_pivot ops pd cfg s
            \<lparr>zz_candle = Some (c\<lparr>c_timestamp := TsOther v\<rparr>), zz_pivot = p\<rparr>) =
         norm_outcome pd (add_pivot ops pd cfg s
            \<lparr>zz_candle = Some (c\<lparr>c_timestamp := TsNum 0\<rparr>), zz_pivot = p\<rparr>) \<and>
         (\<exists>s'. add_pivot ops pd cfg s
            \<lparr>zz_candle = Some (c\<lparr>c_timestamp := TsOther v\<rparr>), zz_pivot = None\<rparr> = Inr (s', None))"
proof -
  from assms have z: "to_ms pd (TsOther v) = 0" by (simp add: to_ms_def)
  have z0: "to_ms pd (TsNum 0) = 0" by (simp add: to_ms_def py_int_def)
  from z z0 have "norm_zz pd \<lparr>zz_candle = Some (c\<lparr>c_timestamp := TsOther v\<rparr>), zz_pivot = p\<rparr> =
        norm_zz pd \<lparr>zz_candle = Some (c\<lparr>c_timestamp := TsNum 0\<rparr>), zz_pivot = p\<rparr>"
    by (simp add: norm_zz_def norm_candle_def)
  then have "norm_outcome pd (add_pivot ops pd cfg s
            \<lparr>zz_candle = Some (c\<lparr>c_timestamp := TsOther v\<rparr>), zz_pivot = p\<rparr>) =
         norm_outcome pd (add_pivot ops pd cfg s
            \<lparr>zz_candle = Some (c\<lparr>c_timestamp := TsNum 0\<rparr>), zz_pivot = p\<rparr>)"
    by (simp only: add_pivot_norm [symmetric])
  moreover have "\<exists>s'. add_pivot ops pd cfg s
            \<lparr>zz_candle = Some (c\<lparr>c_timestamp := TsOther v\<rparr>), zz_pivot = None\<rparr> = Inr (s', None)"
    by (simp add: add_pivot_def add_pivot_traced_def)
  ultimately show ?thesis using z by simp
qed














text \<open>
  Without rounding, the price of a line built from two positive prices is positive at
  every candle in between: the penetration stage does not raise on such a line.
\<close>

lemma line_price_positive:
  assumes l: "create_line exact_ops a b = Some l" and pa: "0 < p_price a" and pb: "0 < p_price b"
    and bt: "spec_between pd l c"
  shows "0 < spec_line_price exact_ops pd l c"
proof -
  define x1 y1 x2 y2 t where "x1 = p_timestamp a" and "y1 = p_price a" and "x2 = p_timestamp b"
    and "y2 = p_price b" and "t = (of_int (to_ms pd (c_timestamp c)) :: rat)"
  from l have ne: "x2 \<noteq> x1"
    by (auto simp: create_line_def Let_def x1_def x2_def split: if_splits)
  from l ne have sl: "slope l = (y2 - y1) / (x2 - x1)" and ic: "intercept l = y1 - slope l * x1"
    and pts: "point1 l = a" "point2 l = b"
    by (auto simp: create_line_def exact_ops_def Let_def x1_def x2_def y1_def y2_def
        split: if_splits)
  from bt pts have between: "min x1 x2 < t" "t < max x1 x2"
    by (simp_all add: spec_between_def x1_def x2_def t_def)
  define d where "d = x2 - x1"
  from ne have d: "d \<noteq> 0" by (simp add: d_def)
  have "spec_line_price exact_ops pd l c = slope l * t + (y1 - slope l * x1)"
    by (simp add: spec_line_price_def exact_ops_def ic t_def)
  also have "\<dots> = y1 + slope l * (t - x1)"
    by (simp add: algebra_simps)
  also have "\<dots> = y1 + ((y2 - y1) * (t - x1)) / d"
    by (simp add: sl d_def)
  also have "\<dots> = (y1 * d + (y2 - y1) * (t - x1)) / d"
    using d by (simp add: add_divide_distrib)
  also have "y1 * d + (y2 - y1) * (t - x1) = y1 * (x2 - t) + y2 * (t - x1)"
    by (simp add: d_def algebra_simps)
  finally have price: "spec_line_price exact_ops pd l c = (y1 * (x2 - t) + y2 * (t - x1)) / (x2 - x1)"
    by (simp add: d_def)
  show ?thesis
  proof (cases "x1 < x2")
    case True
    with between have "0 < x2 - t" "0 < t - x1" by simp_all
    with pa pb have "0 < y1 * (x2 - t) + y2 * (t - x1)"
      unfolding y1_def y2_def by (intro add_pos_pos mult_pos_pos)
    with True show ?thesis by (simp add: price zero_less_divide_iff)
  next
    case False
    with ne have lt: "x2 < x1" by simp
    with between have "x2 - t < 0" "t - x1 < 0" by simp_all
    with pa pb have "y1 * (x2 - t) + y2 * (t - x1) < 0"
      unfolding y1_def y2_def by (intro add_neg_neg mult_pos_neg)
    with lt show ?thesis by (simp add: price zero_less_divide_iff)
  qed
qed

lemma positive_prices_no_zero_division:
  assumes "create_line exact_ops a b = Some l" and "0 < p_price a" and "0 < p_price b"
  shows "\<forall>c\<in>set (filter (spec_between pd l) cs).
           spec_penetrates exact_ops pd l c \<longrightarrow> spec_line_price exact_ops pd l c \<noteq> 0"
  using line_price_positive [OF assms] by fastforce

theorem malformed_timestamp_is_epoch_zero_witness:
  "demo_pd ''not a date'' = None \<and>
   to_ms demo_pd (TsOther ''not a date'') = 0 \<and>
   add_pivot exact_ops demo_pd demo_small_cfg demo_after_two_troughs
     \<lparr>zz_candle = Some demo_malformed_candle,
      zz_pivot = Some \<lparr>r_timestamp = 5400000, r_price = 94000, r_type = Trough\<rparr>\<rparr> =
     Inr (demo_after_three_troughs
            \<lparr>candles_list := [demo_candle 2700000]\<rparr>, Some 2) \<and>
   norm_outcome demo_pd (add_pivot exact_ops demo_pd demo_small_cfg demo_after_two_troughs
     \<lparr>zz_candle = Some demo_malformed_candle,
      zz_pivot = Some \<lparr>r_timestamp = 5400000, r_price = 94000, r_type = Trough\<rparr>\<rparr>) =
   norm_outcome demo_pd (add_pivot exact_ops demo_pd demo_small_cfg demo_after_two_troughs
     \<lparr>zz_candle = Some (demo_candle 0),
      zz_pivot = Some \<lparr>r_timestamp = 5400000, r_price = 94000, r_type = Trough\<rparr>\<rparr>)"
proof -
  have n: "demo_pd ''not a date'' = None" by (simp add: demo_pd_def)
  have c: "demo_candle 0 = (demo_candle 0)\<lparr>c_timestamp := TsNum 0\<rparr>"
    by (simp add: demo_candle_def)
  have r: "add_pivot exact_ops demo_pd demo_small_cfg demo_after_two_troughs
     \<lparr>zz_candle = Some demo_malformed_candle,
      zz_pivot = Some \<lparr>r_timestamp = 5400000, r_price = 94000, r_type = Trough\<rparr>\<rparr> =
     Inr (demo_after_three_troughs\<lparr>candles_list := [demo_candle 2700000]\<rparr>, Some 2)"
    by (simp add: add_pivot_def demo_malformed_candle_def demo_small_cfg_def
        demo_after_two_troughs_def demo_after_three_troughs_def demo_lower_line_def
        demo_second_line_def demo_defs engine_defs Let_def)
  from malformed_timestamp_is_epoch_zero [of demo_pd "''not a date''" exact_ops demo_small_cfg
      demo_after_two_troughs "demo_candle 0"
      "Some \<lparr>r_timestamp = 5400000, r_price = 94000, r_type = Trough\<rparr>", OF n]
  show ?thesis
    using n r c by (simp add: demo_malformed_candle_def)
qed

section \<open>Resident lines of a run in time order\<close>













end
